theory Spec2Isabelle
  imports Main "HOL-Library.AList" "HOL-Library.Word"
begin

section \<open>FiltersByDomain (lib/filtersByDomain.js)\<close>

text \<open>
  A JavaScript \<open>Map\<close> is modelled as an association list in insertion order:
  \<open>map_of\<close> is \<open>Map.get\<close>, \<open>AList.update\<close> is \<open>Map.set\<close> (an existing key keeps
  its position, a new key goes to the end) and \<open>AList.delete\<close> is \<open>Map.delete\<close>.

  An entry of the index is either a bare filter text (the filter applies on the domain)
  or a \<open>FilterMap\<close> from filter text to the include flag.
\<close>

datatype entry = Bare string | FilterMap "(string \<times> bool) list"

type_synonym domains = "(string \<times> bool) list"

type_synonym filtersByDomain = "(string \<times> entry) list"

definition defaultDomains :: domains where
  "defaultDomains = [('''', True)]"

text \<open>\<open>domains || defaultDomains\<close>: a filter's \<open>domains\<close> is \<open>null\<close> or a Map.\<close>

definition domainsOrDefault :: "domains option \<Rightarrow> domains" where
  "domainsOrDefault ds = (case ds of None \<Rightarrow> defaultDomains | Some d \<Rightarrow> d)"

definition FiltersByDomain_empty :: filtersByDomain where
  "FiltersByDomain_empty = []"

definition FiltersByDomain_size :: "filtersByDomain \<Rightarrow> nat" where
  "FiltersByDomain_size m = length m"

definition FiltersByDomain_has :: "filtersByDomain \<Rightarrow> string \<Rightarrow> bool" where
  "FiltersByDomain_has m key = (map_of m key \<noteq> None)"

definition FiltersByDomain_get :: "filtersByDomain \<Rightarrow> string \<Rightarrow> entry option" where
  "FiltersByDomain_get m key = map_of m key"

definition FiltersByDomain_clear :: "filtersByDomain \<Rightarrow> filtersByDomain" where
  "FiltersByDomain_clear m = []"

text \<open>
  The test \<open>if (!map)\<close> of \<open>add\<close> and \<open>if (map)\<close> of \<open>remove\<close> is JavaScript
  truthiness: \<open>undefined\<close> and the empty string are falsy, every object is truthy.
\<close>

fun truthy :: "entry option \<Rightarrow> bool" where
  "truthy None = False"
| "truthy (Some (Bare s)) = (s \<noteq> '''')"
| "truthy (Some (FilterMap fm)) = True"

text \<open>One iteration of the loop of \<open>add(text, domains)\<close>.\<close>

definition add_step :: "string \<Rightarrow> filtersByDomain \<Rightarrow> string \<times> bool \<Rightarrow> filtersByDomain" where
  "add_step text m p =
     (case p of (domain, include) \<Rightarrow>
        if \<not> include \<and> domain = '''' then m
        else if \<not> truthy (map_of m domain) then
          AList.update domain (if include then Bare text else FilterMap [(text, False)]) m
        else (case map_of m domain of
            Some (Bare s) \<Rightarrow>
              if text \<noteq> s
              then AList.update domain (FilterMap [(s, True), (text, include)]) m
              else m
          | Some (FilterMap fm) \<Rightarrow>
              AList.update domain (FilterMap (AList.update text include fm)) m
          | None \<Rightarrow> m))"

definition FiltersByDomain_add :: "string \<Rightarrow> domains option \<Rightarrow> filtersByDomain \<Rightarrow> filtersByDomain" where
  "FiltersByDomain_add text ds m = foldl (add_step text) m (domainsOrDefault ds)"

text \<open>One iteration of the loop of \<open>remove(text, domains)\<close>.\<close>

definition remove_step :: "string \<Rightarrow> filtersByDomain \<Rightarrow> string \<Rightarrow> filtersByDomain" where
  "remove_step text m domain =
     (if \<not> truthy (map_of m domain) then m
      else (case map_of m domain of
          Some (FilterMap fm) \<Rightarrow>
            (let fm' = AList.delete text fm in
             if length fm' = 0 then AList.delete domain m
             else if length fm' = 1 then
               (case hd fm' of (lastFilter, include) \<Rightarrow>
                  if include then AList.update domain (Bare lastFilter) m
                  else AList.update domain (FilterMap fm') m)
             else AList.update domain (FilterMap fm') m)
        | Some (Bare s) \<Rightarrow> if text = s then AList.delete domain m else m
        | None \<Rightarrow> m))"

definition FiltersByDomain_remove :: "string \<Rightarrow> domains option \<Rightarrow> filtersByDomain \<Rightarrow> filtersByDomain" where
  "FiltersByDomain_remove text ds m = foldl (remove_step text) m (map fst (domainsOrDefault ds))"

subsection \<open>Representation invariant\<close>



datatype operation = Add string "domains option" | Remove string "domains option" | Clear

fun apply_operation :: "filtersByDomain \<Rightarrow> operation \<Rightarrow> filtersByDomain" where
  "apply_operation m (Add text ds) = FiltersByDomain_add text ds m"
| "apply_operation m (Remove text ds) = FiltersByDomain_remove text ds m"
| "apply_operation m Clear = FiltersByDomain_clear m"

definition run :: "operation list \<Rightarrow> filtersByDomain" where
  "run ops = foldl apply_operation FiltersByDomain_empty ops"

text \<open>The pairs an entry stands for: a bare text is the pair \<open>(text, true)\<close>.\<close>

fun entry_pairs :: "entry \<Rightarrow> (string \<times> bool) list" where
  "entry_pairs (Bare s) = [(s, True)]"
| "entry_pairs (FilterMap fm) = fm"



subsection \<open>Well-formed indices and fresh texts\<close>

text \<open>
  An entry is well formed when a bare text is not the empty string and a FilterMap is
  neither empty nor the singleton of a pair \<open>(text, true)\<close>. \<open>entry_has e t\<close> says that
  the text \<open>t\<close> is stored in the entry, and \<open>entry_lookup e t\<close> is the flag stored for it.
\<close>

fun entry_wf :: "entry \<Rightarrow> bool" where
  "entry_wf (Bare s) = (s \<noteq> '''')"
| "entry_wf (FilterMap fm) = (fm \<noteq> [] \<and> \<not> (length fm = 1 \<and> snd (hd fm)))"

definition FiltersByDomain_wf :: "filtersByDomain \<Rightarrow> bool" where
  "FiltersByDomain_wf m = list_all (\<lambda>(d, e). entry_wf e) m"

fun entry_has :: "entry \<Rightarrow> string \<Rightarrow> bool" where
  "entry_has (Bare s) t = (s = t)"
| "entry_has (FilterMap fm) t = (t \<in> set (map fst fm))"

fun entry_lookup :: "entry option \<Rightarrow> string \<Rightarrow> bool option" where
  "entry_lookup None t = None"
| "entry_lookup (Some (Bare s)) t = (if s = t then Some True else None)"
| "entry_lookup (Some (FilterMap fm)) t = map_of fm t"

definition fresh :: "string \<Rightarrow> domains option \<Rightarrow> filtersByDomain \<Rightarrow> bool" where
  "fresh t ds m =
     list_all (\<lambda>d. case map_of m d of None \<Rightarrow> True | Some e \<Rightarrow> \<not> entry_has e t)
       (map fst (domainsOrDefault ds))"

text \<open>The texts stored under a domain.\<close>

definition texts_at :: "filtersByDomain \<Rightarrow> string \<Rightarrow> string set" where
  "texts_at m d = (case map_of m d of None \<Rightarrow> {} | Some e \<Rightarrow> fst ` set (entry_pairs e))"

text \<open>
  Each step reads the entry of one domain and leaves the Map alone, sets the entry or
  deletes the key. The steps are restated in this form for the proofs.
\<close>

datatype act = Keep | Put entry | Del

fun apply_act :: "string \<Rightarrow> act \<Rightarrow> filtersByDomain \<Rightarrow> filtersByDomain" where
  "apply_act d Keep m = m"
| "apply_act d (Put e) m = AList.update d e m"
| "apply_act d Del m = AList.delete d m"

definition add_act :: "string \<Rightarrow> string \<times> bool \<Rightarrow> entry option \<Rightarrow> act" where
  "add_act text p eo =
     (case p of (domain, include) \<Rightarrow>
        if \<not> include \<and> domain = '''' then Keep
        else if \<not> truthy eo then Put (if include then Bare text else FilterMap [(text, False)])
        else (case eo of
            Some (Bare s) \<Rightarrow>
              if text \<noteq> s then Put (FilterMap [(s, True), (text, include)]) else Keep
          | Some (FilterMap fm) \<Rightarrow> Put (FilterMap (AList.update text include fm))
          | None \<Rightarrow> Keep))"

definition remove_act :: "string \<Rightarrow> entry option \<Rightarrow> act" where
  "remove_act text eo =
     (if \<not> truthy eo then Keep
      else (case eo of
          Some (FilterMap fm) \<Rightarrow>
            (let fm' = AList.delete text fm in
             if length fm' = 0 then Del
             else if length fm' = 1 then
               (case hd fm' of (lastFilter, include) \<Rightarrow>
                  if include then Put (Bare lastFilter) else Put (FilterMap fm'))
             else Put (FilterMap fm'))
        | Some (Bare s) \<Rightarrow> if text = s then Del else Keep
        | None \<Rightarrow> Keep))"

text \<open>
  Sequences of calls: \<open>add_all\<close> performs \<open>add(text, domains)\<close> for each pair of the list
  in order, \<open>remove_all\<close> performs \<open>remove(text, domains)\<close> for each pair in order.
\<close>

definition add_all :: "(string \<times> domains option) list \<Rightarrow> filtersByDomain \<Rightarrow> filtersByDomain" where
  "add_all calls m = foldl (\<lambda>m' (t, ds). FiltersByDomain_add t ds m') m calls"

definition remove_all :: "(string \<times> domains option) list \<Rightarrow> filtersByDomain \<Rightarrow> filtersByDomain" where
  "remove_all calls m = foldl (\<lambda>m' (t, ds). FiltersByDomain_remove t ds m') m calls"

text \<open>Every stored text is a non-empty string and every entry holds at least one text.\<close>

definition texts_nonempty :: "filtersByDomain \<Rightarrow> bool" where
  "texts_nonempty m =
     (\<forall>(d, e) \<in> set m. entry_pairs e \<noteq> [] \<and> '''' \<notin> fst ` set (entry_pairs e))"

text \<open>The texts that a list of calls mentions for a domain.\<close>

definition covers :: "(string \<times> domains option) list \<Rightarrow> string \<Rightarrow> string set" where
  "covers calls d = {t. \<exists>ds. (t, ds) \<in> set calls \<and> d \<in> fst ` set (domainsOrDefault ds)}"

section \<open>Filters (lib/filterClasses.js)\<close>

text \<open>
  Strings are lists of characters with the codes 0 to 255 (ISO 8859-1, the first 256 code
  points of Unicode). \<open>String.prototype.toLowerCase\<close> maps the letters A to Z and the
  letters with the codes 0xC0 to 0xDE, the multiplication sign 0xD7 apart, to the
  characters 32 places further on, and leaves every other character of this range as it
  is. Content-type masks are 32-bit integers, as the operands of the bitwise operators of
  JavaScript are.
\<close>

definition upperLetters :: string where
  "upperLetters = ''ABCDEFGHIJKLMNOPQRSTUVWXYZ''
     @ [CHR 0xC0, CHR 0xC1, CHR 0xC2, CHR 0xC3, CHR 0xC4, CHR 0xC5, CHR 0xC6, CHR 0xC7,
        CHR 0xC8, CHR 0xC9, CHR 0xCA, CHR 0xCB, CHR 0xCC, CHR 0xCD, CHR 0xCE, CHR 0xCF,
        CHR 0xD0, CHR 0xD1, CHR 0xD2, CHR 0xD3, CHR 0xD4, CHR 0xD5, CHR 0xD6]
     @ [CHR 0xD8, CHR 0xD9, CHR 0xDA, CHR 0xDB, CHR 0xDC, CHR 0xDD, CHR 0xDE]"

definition lowerLetters :: string where
  "lowerLetters = ''abcdefghijklmnopqrstuvwxyz''
     @ [CHR 0xE0, CHR 0xE1, CHR 0xE2, CHR 0xE3, CHR 0xE4, CHR 0xE5, CHR 0xE6, CHR 0xE7,
        CHR 0xE8, CHR 0xE9, CHR 0xEA, CHR 0xEB, CHR 0xEC, CHR 0xED, CHR 0xEE, CHR 0xEF,
        CHR 0xF0, CHR 0xF1, CHR 0xF2, CHR 0xF3, CHR 0xF4, CHR 0xF5, CHR 0xF6]
     @ [CHR 0xF8, CHR 0xF9, CHR 0xFA, CHR 0xFB, CHR 0xFC, CHR 0xFD, CHR 0xFE]"

definition toLowerChar :: "char \<Rightarrow> char" where
  "toLowerChar c = (case map_of (zip upperLetters lowerLetters) c of None \<Rightarrow> c | Some l \<Rightarrow> l)"

definition toLowerCase :: "string \<Rightarrow> string" where
  "toLowerCase s = map toLowerChar s"

datatype filterType = Blocking | Whitelist

text \<open>
  A URL filter (\<open>BlockingFilter\<close> or \<open>WhitelistFilter\<close>). \<open>filter_pattern\<close> is \<open>_pattern\<close>
  (\<open>None\<close> for \<open>null\<close>), \<open>filter_regexp\<close> is the source of the regular expression of a
  filter written \<open>/.../\<close>, \<open>filter_thirdParty\<close> is \<open>None\<close> for \<open>null\<close>, and
  \<open>filter_domains\<close> and \<open>filter_sitekeys\<close> are the values of the getters \<open>domains\<close>
  (\<open>null\<close> or the Map that \<open>parseDomains\<close> returns) and \<open>sitekeys\<close>.
\<close>

record urlFilter =
  filter_text :: string
  filter_type :: filterType
  filter_pattern :: "string option"
  filter_regexp :: "string option"
  filter_contentType :: "32 word"
  filter_matchCase :: bool
  filter_thirdParty :: "bool option"
  filter_domains :: "domains option"
  filter_sitekeys :: "string list option"

section \<open>Keywords (lib/matcher.js)\<close>

definition isKeywordChar :: "char \<Rightarrow> bool" where
  "isKeywordChar c = (c \<in> set ''abcdefghijklmnopqrstuvwxyz0123456789%'')"

definition isBadKeyword :: "string \<Rightarrow> bool" where
  "isBadKeyword keyword =
     (keyword = ''https'' \<or> keyword = ''http'' \<or> keyword = ''com'' \<or> keyword = ''js'')"

text \<open>
  \<open>s.match(allKeywordsRegExp)\<close> for the global regular expression
  \<open>/[^a-z0-9%*][a-z0-9%]{2,}(?=[^a-z0-9%*])/g\<close>: the list of all matches, scanning from the
  left. A match starts at a character that is neither a keyword character nor \<open>*\<close>,
  takes the whole run of keyword characters after it (a shorter run is followed by a
  keyword character, which the lookahead refuses), needs at least two of them and a
  following character that is not \<open>*\<close>. The scan goes on after the run, at the
  character the lookahead saw. No match at all (\<open>null\<close>) is the empty list.
\<close>

function matchAllKeywords :: "string \<Rightarrow> string list" where
  "matchAllKeywords [] = []"
| "matchAllKeywords (c # s) =
     (let run = takeWhile isKeywordChar s; rest = dropWhile isKeywordChar s in
      if \<not> isKeywordChar c \<and> c \<noteq> CHR ''*'' \<and> length run \<ge> 2 \<and> rest \<noteq> []
           \<and> hd rest \<noteq> CHR ''*''
      then (c # run) # matchAllKeywords rest
      else matchAllKeywords s)"
  by pat_completeness auto
termination
  by (relation "measure length") (auto simp: length_dropWhile_le less_Suc_eq_le)

declare matchAllKeywords.simps [simp del]

text \<open>
  The loop of \<open>findKeyword\<close>: \<open>count\<close> gives the number of filters of a keyword, the state
  is \<open>(result, resultCount, resultLength)\<close>.
\<close>

definition findKeyword_step ::
  "(string \<Rightarrow> nat) \<Rightarrow> string \<times> nat \<times> nat \<Rightarrow> string \<Rightarrow> string \<times> nat \<times> nat" where
  "findKeyword_step count st match =
     (case st of (result, resultCount, resultLength) \<Rightarrow>
        let candidate = tl match in
        if isBadKeyword candidate then st
        else if count candidate < resultCount
                \<or> (count candidate = resultCount \<and> length candidate > resultLength)
        then (candidate, count candidate, length candidate)
        else st)"

definition findKeyword_with :: "(string \<Rightarrow> nat) \<Rightarrow> urlFilter \<Rightarrow> string" where
  "findKeyword_with count flt =
     (case filter_pattern flt of
        None \<Rightarrow> ''''
      | Some pattern \<Rightarrow>
          fst (foldl (findKeyword_step count) ('''', 16777215, 0)
                 (matchAllKeywords (toLowerCase pattern))))"

section \<open>Matcher with filter counts (lib/matcher.js, the variant with \<open>_filterCountByKeyword\<close>)\<close>

text \<open>
  A filter list of a keyword is one filter or an array of filters; before
  \<open>_getFiltersForKeyword\<close> converts them the filters are their texts.
\<close>

datatype filterRef = FilterText string | FilterObject urlFilter

datatype filtersForKeyword = One filterRef | Many "filterRef list"

record compiledPatterns =
  caseSensitive :: "string option"
  caseInsensitive :: "string option"

record matcher =
  keywordByFilter :: "(string \<times> string) list"
  filterCountByKeyword :: "(string \<times> nat) list"
  filtersByKeyword :: "(string \<times> filtersForKeyword) list"
  filterMapsByType :: "(32 word \<times> (string \<times> filtersForKeyword option) list) list"
  filterDomainMapsByKeyword :: "(string \<times> filtersByDomain) list"
  compiledPatternsByKeyword :: "(string \<times> compiledPatterns option) list"

definition Matcher_new :: matcher where
  "Matcher_new = \<lparr>keywordByFilter = [], filterCountByKeyword = [], filtersByKeyword = [],
     filterMapsByType = [], filterDomainMapsByKeyword = [], compiledPatternsByKeyword = []\<rparr>"

definition Matcher_clear :: "matcher \<Rightarrow> matcher" where
  "Matcher_clear m = m\<lparr>keywordByFilter := [], filterCountByKeyword := [], filtersByKeyword := [],
     filterMapsByType := [], filterDomainMapsByKeyword := [], compiledPatternsByKeyword := []\<rparr>"

text \<open>\<open>this._filterCountByKeyword.get(candidate) || 0\<close>\<close>

definition countOf :: "matcher \<Rightarrow> string \<Rightarrow> nat" where
  "countOf m keyword = (case map_of (filterCountByKeyword m) keyword of None \<Rightarrow> 0 | Some c \<Rightarrow> c)"

definition Matcher_findKeyword :: "matcher \<Rightarrow> urlFilter \<Rightarrow> string" where
  "Matcher_findKeyword m flt = findKeyword_with (countOf m) flt"

text \<open>The block that drops the derived tables when \<open>_filtersByKeyword\<close> is not empty.\<close>

definition clearDerived :: "matcher \<Rightarrow> matcher" where
  "clearDerived m =
     (if length (filtersByKeyword m) > 0
      then m\<lparr>filtersByKeyword := [], filterMapsByType := [], filterDomainMapsByKeyword := [],
             compiledPatternsByKeyword := []\<rparr>
      else m)"

definition Matcher_add :: "matcher \<Rightarrow> urlFilter \<Rightarrow> matcher" where
  "Matcher_add m flt =
     (let text = filter_text flt in
      if map_of (keywordByFilter m) text \<noteq> None then m
      else
        let keyword = Matcher_findKeyword m flt;
            m1 = m\<lparr>keywordByFilter := AList.update text keyword (keywordByFilter m)\<rparr>;
            count = countOf m1 keyword;
            m2 = m1\<lparr>filterCountByKeyword := AList.update keyword (count + 1) (filterCountByKeyword m1)\<rparr>
        in clearDerived m2)"

definition Matcher_remove :: "matcher \<Rightarrow> urlFilter \<Rightarrow> matcher" where
  "Matcher_remove m flt =
     (let text = filter_text flt in
      case map_of (keywordByFilter m) text of
        None \<Rightarrow> m
      | Some keyword \<Rightarrow>
          let m1 = m\<lparr>keywordByFilter := AList.delete text (keywordByFilter m)\<rparr>;
              count = (case map_of (filterCountByKeyword m1) keyword of None \<Rightarrow> 0 | Some c \<Rightarrow> c);
              m2 = (if count > 1
                    then m1\<lparr>filterCountByKeyword := AList.update keyword (count - 1) (filterCountByKeyword m1)\<rparr>
                    else m1\<lparr>filterCountByKeyword := AList.delete keyword (filterCountByKeyword m1)\<rparr>)
          in clearDerived m2)"

definition Matcher_has :: "matcher \<Rightarrow> urlFilter \<Rightarrow> bool" where
  "Matcher_has m flt = (map_of (keywordByFilter m) (filter_text flt) \<noteq> None)"

datatype matcherOp = MAdd urlFilter | MRemove urlFilter | MClear

fun Matcher_apply :: "matcher \<Rightarrow> matcherOp \<Rightarrow> matcher" where
  "Matcher_apply m (MAdd f) = Matcher_add m f"
| "Matcher_apply m (MRemove f) = Matcher_remove m f"
| "Matcher_apply m MClear = Matcher_clear m"

text \<open>The number of filter texts that \<open>_keywordByFilter\<close> maps to a keyword.\<close>

definition filtersWithKeyword :: "matcher \<Rightarrow> string \<Rightarrow> nat" where
  "filtersWithKeyword m keyword = card {t. map_of (keywordByFilter m) t = Some keyword}"

definition Matcher_run :: "matcherOp list \<Rightarrow> matcher" where
  "Matcher_run ops = foldl Matcher_apply Matcher_new ops"

text \<open>The counts are exact: a keyword has a count exactly when filters are mapped to it.\<close>

definition counts_exact :: "matcher \<Rightarrow> bool" where
  "counts_exact m =
     (\<forall>k. map_of (filterCountByKeyword m) k =
        (if filtersWithKeyword m k = 0 then None else Some (filtersWithKeyword m k)))"

section \<open>Matching a filter (lib/filterClasses.js)\<close>

text \<open>
  The view of a request (\<open>URLRequest\<close>): \<open>documentHostname\<close> is \<open>None\<close> for \<open>null\<close>.
\<close>

record urlRequest =
  href :: string
  lowerCaseHref :: string
  documentHostname :: "string option"
  thirdParty :: bool

text \<open>
  What the code takes from modules that are not part of the sources at hand is a
  parameter: the three content-type masks of \<open>contentTypes.js\<close>, the function
  \<open>filterToRegExp\<close> of \<open>common.js\<close>, and the regular expressions of the JavaScript
  engine, as \<open>regexpValid source\<close> (\<open>new RegExp(source)\<close> does not throw) and
  \<open>regexpTest source s\<close> (\<open>new RegExp(source).test(s)\<close>). \<open>fromText\<close> is
  \<open>Filter.fromText\<close> on the texts of URL filters, whose parser of the filter options is
  not modelled: it gives the filter of a text. \<open>requestFrom url docDomain\<close> is
  \<open>URLRequest.from(url, docDomain)\<close> of \<open>url.js\<close>, for the address \<open>url.href\<close>.
\<close>

record env =
  RESOURCE_TYPES :: "32 word"
  SPECIAL_TYPES :: "32 word"
  WHITELISTING_TYPES :: "32 word"
  filterToRegExp :: "string \<Rightarrow> string"
  regexpValid :: "string \<Rightarrow> bool"
  regexpTest :: "string \<Rightarrow> string \<Rightarrow> bool"
  fromText :: "string \<Rightarrow> urlFilter"
  requestFrom :: "string \<Rightarrow> string option \<Rightarrow> urlRequest"

text \<open>
  \<open>String.prototype.toUpperCase\<close> maps a lower-case letter to its upper-case letter and
  the sharp s (0xDF) to \<open>SS\<close>. The upper-case forms of the micro sign (0xB5) and of the
  y with diaeresis (0xFF) have codes above 255: the result is then no string of this
  model, and is \<open>None\<close>.
\<close>

definition toUpperChar :: "char \<Rightarrow> string" where
  "toUpperChar c =
     (if c = CHR 0xDF then ''SS''
      else case map_of (zip lowerLetters upperLetters) c of None \<Rightarrow> [c] | Some u \<Rightarrow> [u])"

definition toUpperCase :: "string \<Rightarrow> string option" where
  "toUpperCase s =
     (if CHR 0xB5 \<in> set s \<or> CHR 0xFF \<in> set s then None
      else Some (concat (map toUpperChar s)))"

text \<open>\<open>s.indexOf(p)\<close>: the first index at which \<open>p\<close> occurs, \<open>None\<close> for \<open>-1\<close>.\<close>

fun indexOf :: "string \<Rightarrow> string \<Rightarrow> nat option" where
  "indexOf [] p = (if p = [] then Some 0 else None)"
| "indexOf (c # s) p =
     (if take (length p) (c # s) = p then Some 0 else map_option Suc (indexOf s p))"

text \<open>
  \<open>separatorRegExp\<close>, the class
  \<open>[\x00-\x24\x26-\x2C\x2F\x3A-\x40\x5B-\x5E\x60\x7B-\x7F]\<close>, tested on one character.
\<close>

definition isSeparator :: "char \<Rightarrow> bool" where
  "isSeparator c =
     (let n = (of_char c :: nat) in
      n \<le> 36 \<or> (38 \<le> n \<and> n \<le> 44) \<or> n = 47 \<or> (58 \<le> n \<and> n \<le> 64)
        \<or> (91 \<le> n \<and> n \<le> 94) \<or> n = 96 \<or> (123 \<le> n \<and> n \<le> 127))"

definition isSpecialChar :: "char \<Rightarrow> bool" where
  "isSpecialChar c = (c = CHR ''*'' \<or> c = CHR ''^'' \<or> c = CHR ''|'')"

text \<open>\<open>pattern.replace(/^\|{1,2}/, "")\<close> and \<open>.replace(/[|^]$/, "")\<close>\<close>

fun stripLeadingAnchor :: "string \<Rightarrow> string" where
  "stripLeadingAnchor (a # b # s) =
     (if a = CHR ''|'' then (if b = CHR ''|'' then s else b # s) else a # b # s)"
| "stripLeadingAnchor [a] = (if a = CHR ''|'' then [] else [a])"
| "stripLeadingAnchor [] = []"

definition stripTrailingAnchor :: "string \<Rightarrow> string" where
  "stripTrailingAnchor s =
     (if s \<noteq> [] \<and> (last s = CHR ''|'' \<or> last s = CHR ''^'') then butlast s else s)"

definition isLiteralPattern :: "string \<Rightarrow> bool" where
  "isLiteralPattern pattern =
     (\<not> list_ex isSpecialChar (stripTrailingAnchor (stripLeadingAnchor pattern)))"

text \<open>
  The getter \<open>regexp\<close>: the source of the regular expression that is tested, \<open>None\<close> for
  \<open>null\<close> (a literal pattern).
\<close>

definition URLFilter_regexp :: "env \<Rightarrow> urlFilter \<Rightarrow> string option" where
  "URLFilter_regexp E flt =
     (case filter_regexp flt of
        Some source \<Rightarrow> Some source
      | None \<Rightarrow>
         (case filter_pattern flt of
            None \<Rightarrow> None
          | Some pattern \<Rightarrow>
              if isLiteralPattern pattern then None else Some (filterToRegExp E pattern)))"

text \<open>\<open>extendedAnchorRegExp.test(s)\<close>\<close>

definition extendedAnchorTest :: "env \<Rightarrow> string \<Rightarrow> bool" where
  "extendedAnchorTest E s = regexpTest E (filterToRegExp E ''||'' @ ''$'') s"

text \<open>
  The string part of \<open>_matchesLocation\<close>, for a filter without a regular expression.
  \<open>location[i]\<close> past the end is \<open>undefined\<close>, which differs from \<open>"/"\<close> and is falsy.
\<close>

definition matchesLiteral :: "env \<Rightarrow> string \<Rightarrow> string \<Rightarrow> bool" where
  "matchesLiteral E pattern0 location =
     (let startsWithAnchor = (pattern0 \<noteq> [] \<and> hd pattern0 = CHR ''|'');
          startsWithExtendedAnchor =
            (startsWithAnchor \<and> length pattern0 \<ge> 2 \<and> pattern0 ! 1 = CHR ''|'');
          endsWithSeparator = (pattern0 \<noteq> [] \<and> last pattern0 = CHR ''^'');
          endsWithAnchor = (\<not> endsWithSeparator \<and> pattern0 \<noteq> [] \<and> last pattern0 = CHR ''|'');
          pattern1 = (if startsWithExtendedAnchor then drop 2 pattern0
                      else if startsWithAnchor then drop 1 pattern0 else pattern0);
          pattern = (if endsWithSeparator \<or> endsWithAnchor then butlast pattern1 else pattern1)
      in case indexOf location pattern of
           None \<Rightarrow> False
         | Some index \<Rightarrow>
             (if startsWithExtendedAnchor
              then (index \<ge> length location \<or> location ! index \<noteq> CHR ''/'')
                     \<and> extendedAnchorTest E (take index location)
              else if startsWithAnchor then index = 0 else True)
             \<and> (if endsWithSeparator
                then index + length pattern \<ge> length location
                       \<or> isSeparator (location ! (index + length pattern))
                else if endsWithAnchor
                     then int index = int (length location) - int (length pattern)
                     else True))"

definition URLFilter_matchesLocation :: "env \<Rightarrow> urlFilter \<Rightarrow> urlRequest \<Rightarrow> bool" where
  "URLFilter_matchesLocation E flt request =
     (let location = (if filter_matchCase flt then href request else lowerCaseHref request) in
      case URLFilter_regexp E flt of
        Some source \<Rightarrow> regexpTest E source location
      | None \<Rightarrow>
          (case filter_pattern flt of
             Some pattern \<Rightarrow> matchesLiteral E pattern location
           | None \<Rightarrow> False))"

text \<open>
  Modelled from the spec: \<open>domainSuffixes\<close> of \<open>url.js\<close> is not part of the sources at hand.
  Given a host and a flag it yields the host, then each shorter suffix obtained by
  dropping one leading label, and finally, if the flag is set, the empty string.
\<close>

definition dropLabel :: "string \<Rightarrow> string" where
  "dropLabel d = (case dropWhile (\<lambda>c. c \<noteq> CHR ''.'') d of [] \<Rightarrow> [] | dot # r \<Rightarrow> r)"

function domainSuffixes :: "string \<Rightarrow> bool \<Rightarrow> string list" where
  "domainSuffixes d includeBlank =
     (if d = [] then (if includeBlank then [''''] else [])
      else d # domainSuffixes (dropLabel d) includeBlank)"
  by pat_completeness auto
termination
proof (relation "measure (\<lambda>(d, b). length d)")
  show "wf (measure (\<lambda>(d, b). length d))" by simp
next
  fix d :: string and includeBlank :: bool
  assume "d \<noteq> []"
  have "length (dropWhile (\<lambda>c. c \<noteq> CHR ''.'') d) \<le> length d" by (rule length_dropWhile_le)
  then have "length (dropLabel d) < length d"
    using \<open>d \<noteq> []\<close> by (cases d) (auto simp: dropLabel_def split: list.splits)
  then show "((dropLabel d, includeBlank), (d, includeBlank)) \<in> measure (\<lambda>(d, b). length d)"
    by simp
qed

declare domainSuffixes.simps [simp del]

text \<open>
  \<open>isActiveOnDomain(docDomain, sitekey)\<close>. The result is a JavaScript value: \<open>Some b\<close> is
  the boolean \<open>b\<close> and \<open>None\<close> is \<open>undefined\<close>, which \<open>domains.get\<close> returns for a
  missing key. \<open>!sitekey\<close> holds for \<open>null\<close> and for the empty string.
\<close>

definition firstDefined :: "domains \<Rightarrow> string list \<Rightarrow> bool option" where
  "firstDefined ds suffixes =
     (case filter (\<lambda>s. map_of ds s \<noteq> None) suffixes of
        [] \<Rightarrow> map_of ds ''''
      | s # rest \<Rightarrow> map_of ds s)"

definition isActiveOnDomain :: "urlFilter \<Rightarrow> string option \<Rightarrow> string option \<Rightarrow> bool option" where
  "isActiveOnDomain flt docDomain sitekey =
     (if (case filter_sitekeys flt of
            None \<Rightarrow> False
          | Some keys \<Rightarrow>
              (case sitekey of
                 None \<Rightarrow> True
               | Some k \<Rightarrow>
                   k = '''' \<or> (case toUpperCase k of
                                 None \<Rightarrow> True
                               | Some upper \<Rightarrow> upper \<notin> set keys)))
      then Some False
      else case filter_domains flt of
          None \<Rightarrow> Some True
        | Some ds \<Rightarrow>
            let d0 = (case docDomain of None \<Rightarrow> '''' | Some d \<Rightarrow> d);
                d1 = (if d0 \<noteq> [] \<and> last d0 = CHR ''.'' then butlast d0 else d0)
            in if d1 = [] then map_of ds ''''
               else firstDefined ds (domainSuffixes d1 False))"

text \<open>\<open>isGeneric()\<close>; \<open>domains.get("")\<close> is truthy when it is \<open>true\<close>.\<close>

definition isGeneric :: "urlFilter \<Rightarrow> bool" where
  "isGeneric flt =
     (\<not> (case filter_sitekeys flt of None \<Rightarrow> False | Some keys \<Rightarrow> length keys \<noteq> 0)
      \<and> (case filter_domains flt of None \<Rightarrow> True | Some ds \<Rightarrow> map_of ds '''' = Some True))"

text \<open>
  \<open>matches(request, typeMask, sitekey)\<close>: the value of the \<open>&&\<close> chain, a boolean or the
  \<open>undefined\<close> of \<open>isActiveOnDomain\<close>.
\<close>

definition URLFilter_matches ::
  "env \<Rightarrow> urlFilter \<Rightarrow> urlRequest \<Rightarrow> 32 word \<Rightarrow> string option \<Rightarrow> bool option" where
  "URLFilter_matches E flt request typeMask sitekey =
     (if and (filter_contentType flt) typeMask = 0 then Some False
      else if \<not> (filter_thirdParty flt = None \<or> filter_thirdParty flt = Some (thirdParty request))
      then Some False
      else if \<not> URLFilter_matchesLocation E flt request then Some False
      else isActiveOnDomain flt (documentHostname request) sitekey)"

text \<open>
  The constructor of \<open>URLFilter\<close> (with the class, blocking or whitelist, as first
  argument): \<open>None\<close> when \<open>new RegExp\<close> throws. The Map of the getter \<open>domains\<close> comes
  from \<open>parseDomains\<close> of \<open>url.js\<close>, which is a parameter, applied to the lower-cased
  source; the getter \<open>sitekeys\<close> splits the source at \<open>|\<close>.
\<close>

definition stripWildcards :: "string \<Rightarrow> string" where
  "stripWildcards s =
     rev (dropWhile (\<lambda>c. c = CHR ''*'') (rev (dropWhile (\<lambda>c. c = CHR ''*'') s)))"

fun splitOn :: "char \<Rightarrow> string \<Rightarrow> string list" where
  "splitOn sep [] = [[]]"
| "splitOn sep (c # s) =
     (if c = sep then [] # splitOn sep s
      else (case splitOn sep s of x # xs \<Rightarrow> (c # x) # xs | [] \<Rightarrow> [[c]]))"

definition isRegexpLiteral :: "string \<Rightarrow> bool" where
  "isRegexpLiteral regexpSource =
     (length regexpSource \<ge> 2 \<and> hd regexpSource = CHR ''/'' \<and> last regexpSource = CHR ''/'')"

definition URLFilter_new ::
  "env \<Rightarrow> (string \<Rightarrow> char \<Rightarrow> domains option) \<Rightarrow> filterType \<Rightarrow> string \<Rightarrow> string \<Rightarrow>
     32 word option \<Rightarrow> bool option \<Rightarrow> string option \<Rightarrow> bool option \<Rightarrow> string option \<Rightarrow>
     urlFilter option" where
  "URLFilter_new E parseDomains cls text regexpSource0 contentType matchCase domainSource
      thirdParty0 sitekeySource =
     (let ct = (case contentType of None \<Rightarrow> RESOURCE_TYPES E | Some c \<Rightarrow> c);
          mc = (case matchCase of None \<Rightarrow> False | Some b \<Rightarrow> b);
          ds = (case domainSource of
                  None \<Rightarrow> None
                | Some src \<Rightarrow> if src = '''' then None else parseDomains (toLowerCase src) (CHR ''|''));
          sk = (case sitekeySource of
                  None \<Rightarrow> None
                | Some src \<Rightarrow> if src = '''' then None else Some (splitOn (CHR ''|'') src));
          regexpSource = (if \<not> mc then toLowerCase regexpSource0 else regexpSource0);
          flt = \<lparr>filter_text = text, filter_type = cls, filter_pattern = None,
                  filter_regexp = None, filter_contentType = ct, filter_matchCase = mc,
                  filter_thirdParty = thirdParty0, filter_domains = ds, filter_sitekeys = sk\<rparr>
      in if isRegexpLiteral regexpSource
         then (let source = butlast (tl regexpSource) in
               if regexpValid E source then Some (flt\<lparr>filter_regexp := Some source\<rparr>) else None)
         else Some (flt\<lparr>filter_pattern := Some (stripWildcards regexpSource)\<rparr>))"

text \<open>
  Modelled from the spec: the meaning of a pattern, which the code takes from the regular
  expression that \<open>filterToRegExp\<close> of \<open>common.js\<close> (not part of the sources at hand)
  builds. In a pattern \<open>*\<close> is a wildcard, \<open>^\<close> matches a separator character or the
  end of the address, \<open>|\<close> at the start or at the end anchors the pattern there, and
  every other character matches itself; an unanchored pattern may match at any position.
  The domain anchor \<open>||\<close> is left out of this model.
\<close>

fun specMatchHere :: "string \<Rightarrow> string \<Rightarrow> bool" where
  "specMatchHere [] loc = True"
| "specMatchHere (p # ps) loc =
     (if p = CHR ''*'' then list_ex (\<lambda>k. specMatchHere ps (drop k loc)) [0..<Suc (length loc)]
      else if p = CHR ''^''
      then (loc = [] \<and> specMatchHere ps []) \<or>
           (loc \<noteq> [] \<and> isSeparator (hd loc) \<and> specMatchHere ps (tl loc))
      else if p = CHR ''|'' \<and> ps = [] then loc = []
      else loc \<noteq> [] \<and> hd loc = p \<and> specMatchHere ps (tl loc))"

definition specMatches :: "string \<Rightarrow> string \<Rightarrow> bool" where
  "specMatches pattern location =
     (if pattern \<noteq> [] \<and> hd pattern = CHR ''|'' then specMatchHere (tl pattern) location
      else list_ex (\<lambda>k. specMatchHere pattern (drop k location)) [0..<Suc (length location)])"

text \<open>
  The source of a filter after the constructor has lower-cased it (unless the filter is
  case sensitive).
\<close>

definition normalizedSource :: "bool option \<Rightarrow> string \<Rightarrow> string" where
  "normalizedSource matchCase src = (if matchCase = Some True then src else toLowerCase src)"

text \<open>
  An environment for evaluating the definitions on concrete inputs: the masks are those of
  \<open>contentTypes.js\<close> (the resource types are the bits below \<open>1 << 24\<close>, the whitelisting
  types are document, genericblock, elemhide and generichide, the bits 26 to 29); its
  regular expressions match nothing, and the inputs evaluated with it do not reach them;
  its \<open>fromText\<close> reads a text as a blocking filter whose pattern is the text, and its
  \<open>requestFrom\<close> takes every request as a first-party request.
\<close>

definition testEnv :: env where
  "testEnv = \<lparr>RESOURCE_TYPES = 16777215, SPECIAL_TYPES = 2130706432,
     WHITELISTING_TYPES = 1006632960, filterToRegExp = (\<lambda>s. s),
     regexpValid = (\<lambda>s. True), regexpTest = (\<lambda>s l. False),
     fromText = (\<lambda>t. \<lparr>filter_text = t, filter_type = Blocking, filter_pattern = Some t,
        filter_regexp = None, filter_contentType = 16777215, filter_matchCase = False,
        filter_thirdParty = None, filter_domains = None, filter_sitekeys = None\<rparr>),
     requestFrom = (\<lambda>url docDomain. \<lparr>href = url, lowerCaseHref = toLowerCase url,
        documentHostname = docDomain, thirdParty = False\<rparr>)\<rparr>"

section \<open>Matcher with simple and complex filters (lib/matcher.js, the variant with \<open>_simpleFiltersByKeyword\<close>)\<close>

text \<open>
  The filters of a keyword are one filter text or a \<open>Set\<close> of filter texts, in insertion
  order.
\<close>

datatype bucket = Single string | SetOf "string list"

text \<open>\<open>typeof filters == "string" ? [filters] : filters\<close>\<close>

fun bucketList :: "bucket \<Rightarrow> string list" where
  "bucketList (Single s) = [s]"
| "bucketList (SetOf xs) = xs"

text \<open>
  \<open>typeof x == "string" ? 1 : typeof x == "undefined" ? 0 : x.size\<close>, and the truthiness
  of a value that is \<open>undefined\<close>, a string or a \<open>Set\<close>.
\<close>

fun bucketSize :: "bucket option \<Rightarrow> nat" where
  "bucketSize None = 0"
| "bucketSize (Some (Single s)) = 1"
| "bucketSize (Some (SetOf xs)) = length xs"

fun truthyBucket :: "bucket option \<Rightarrow> bool" where
  "truthyBucket None = False"
| "truthyBucket (Some (Single s)) = (s \<noteq> '''')"
| "truthyBucket (Some (SetOf xs)) = True"

definition addFilterByKeyword ::
  "string \<Rightarrow> string \<Rightarrow> (string \<times> bucket) list \<Rightarrow> (string \<times> bucket) list" where
  "addFilterByKeyword flt keyword m =
     (case map_of m keyword of
        None \<Rightarrow> AList.update keyword (Single flt) m
      | Some (Single s) \<Rightarrow>
          if flt \<noteq> s then AList.update keyword (SetOf [s, flt]) m else m
      | Some (SetOf xs) \<Rightarrow>
          AList.update keyword (SetOf (if flt \<in> set xs then xs else xs @ [flt])) m)"

definition removeFilterByKeyword ::
  "string \<Rightarrow> string \<Rightarrow> (string \<times> bucket) list \<Rightarrow> (string \<times> bucket) list" where
  "removeFilterByKeyword flt keyword m =
     (case map_of m keyword of
        None \<Rightarrow> m
      | Some (Single s) \<Rightarrow> if flt = s then AList.delete keyword m else m
      | Some (SetOf xs) \<Rightarrow>
          (let xs' = removeAll flt xs in
           if length xs' = 1 then AList.update keyword (Single (hd xs')) m
           else AList.update keyword (SetOf xs') m))"

text \<open>
  Modelled from the spec: \<open>enumerateTypes\<close> of \<open>contentTypes.js\<close> is not part of the
  sources at hand. It yields the single types (bits) of a content type within a
  selection, which make the keys of the per-type sub-index.
\<close>

definition enumerateTypes :: "32 word \<Rightarrow> 32 word \<Rightarrow> 32 word list" where
  "enumerateTypes contentType selection =
     map (\<lambda>i. push_bit i 1) (filter (\<lambda>i. bit (and contentType selection) i) [0..<32])"

record matcher2 =
  keywordByFilter_sc :: "(string \<times> string) list"
  simpleFiltersByKeyword :: "(string \<times> bucket) list"
  complexFiltersByKeyword :: "(string \<times> bucket) list"
  compiledPatternsByKeyword_sc :: "(string \<times> compiledPatterns option) list"
  filterMapsByType_sc :: "(32 word \<times> (string \<times> bucket) list) list"

definition Matcher2_new :: matcher2 where
  "Matcher2_new = \<lparr>keywordByFilter_sc = [], simpleFiltersByKeyword = [],
     complexFiltersByKeyword = [], compiledPatternsByKeyword_sc = [], filterMapsByType_sc = []\<rparr>"

definition Matcher2_clear :: "matcher2 \<Rightarrow> matcher2" where
  "Matcher2_clear m = m\<lparr>keywordByFilter_sc := [], simpleFiltersByKeyword := [],
     complexFiltersByKeyword := [], compiledPatternsByKeyword_sc := [], filterMapsByType_sc := []\<rparr>"

definition Matcher2_findKeyword :: "matcher2 \<Rightarrow> urlFilter \<Rightarrow> string" where
  "Matcher2_findKeyword m flt =
     findKeyword_with
       (\<lambda>candidate. bucketSize (map_of (simpleFiltersByKeyword m) candidate)
                     + bucketSize (map_of (complexFiltersByKeyword m) candidate)) flt"

text \<open>\<open>filter.contentType == RESOURCE_TYPES && filter.isGeneric()\<close>\<close>

definition isSimple :: "env \<Rightarrow> urlFilter \<Rightarrow> bool" where
  "isSimple E flt = (filter_contentType flt = RESOURCE_TYPES E \<and> isGeneric flt)"

text \<open>\<open>if (this._compiledPatternsByKeyword.size > 0) this._compiledPatternsByKeyword.delete(keyword)\<close>\<close>

definition dropCompiled :: "string \<Rightarrow> matcher2 \<Rightarrow> matcher2" where
  "dropCompiled keyword m =
     (if length (compiledPatternsByKeyword_sc m) > 0
      then m\<lparr>compiledPatternsByKeyword_sc := AList.delete keyword (compiledPatternsByKeyword_sc m)\<rparr>
      else m)"

definition addToTypeMap ::
  "string \<Rightarrow> string \<Rightarrow> (32 word \<times> (string \<times> bucket) list) list \<Rightarrow> 32 word \<Rightarrow>
     (32 word \<times> (string \<times> bucket) list) list" where
  "addToTypeMap flt keyword maps type =
     (let m = (case map_of maps type of None \<Rightarrow> [] | Some m' \<Rightarrow> m')
      in AList.update type (addFilterByKeyword flt keyword m) maps)"

definition removeFromTypeMap ::
  "string \<Rightarrow> string \<Rightarrow> (32 word \<times> (string \<times> bucket) list) list \<Rightarrow> 32 word \<Rightarrow>
     (32 word \<times> (string \<times> bucket) list) list" where
  "removeFromTypeMap flt keyword maps type =
     (case map_of maps type of
        None \<Rightarrow> maps
      | Some m \<Rightarrow> AList.update type (removeFilterByKeyword flt keyword m) maps)"

definition Matcher2_add :: "env \<Rightarrow> matcher2 \<Rightarrow> urlFilter \<Rightarrow> matcher2" where
  "Matcher2_add E m flt =
     (let ftext = filter_text flt in
      if map_of (keywordByFilter_sc m) ftext \<noteq> None then m
      else
        let keyword = Matcher2_findKeyword m flt;
            simple = isSimple E flt;
            m1 = (if simple
                  then m\<lparr>simpleFiltersByKeyword :=
                           addFilterByKeyword ftext keyword (simpleFiltersByKeyword m)\<rparr>
                  else m\<lparr>complexFiltersByKeyword :=
                           addFilterByKeyword ftext keyword (complexFiltersByKeyword m)\<rparr>);
            m2 = m1\<lparr>keywordByFilter_sc := AList.update ftext keyword (keywordByFilter_sc m1)\<rparr>
        in if simple then dropCompiled keyword m2
           else m2\<lparr>filterMapsByType_sc :=
                     foldl (addToTypeMap ftext keyword) (filterMapsByType_sc m2)
                       (enumerateTypes (filter_contentType flt) (SPECIAL_TYPES E))\<rparr>)"

definition Matcher2_remove :: "env \<Rightarrow> matcher2 \<Rightarrow> urlFilter \<Rightarrow> matcher2" where
  "Matcher2_remove E m flt =
     (let ftext = filter_text flt in
      case map_of (keywordByFilter_sc m) ftext of
        None \<Rightarrow> m
      | Some keyword \<Rightarrow>
          let simple = isSimple E flt;
              m1 = (if simple
                    then m\<lparr>simpleFiltersByKeyword :=
                             removeFilterByKeyword ftext keyword (simpleFiltersByKeyword m)\<rparr>
                    else m\<lparr>complexFiltersByKeyword :=
                             removeFilterByKeyword ftext keyword (complexFiltersByKeyword m)\<rparr>);
              m2 = m1\<lparr>keywordByFilter_sc := AList.delete ftext (keywordByFilter_sc m1)\<rparr>
          in if simple then dropCompiled keyword m2
             else m2\<lparr>filterMapsByType_sc :=
                       foldl (removeFromTypeMap ftext keyword) (filterMapsByType_sc m2)
                         (enumerateTypes (filter_contentType flt) (SPECIAL_TYPES E))\<rparr>)"

definition Matcher2_has :: "matcher2 \<Rightarrow> urlFilter \<Rightarrow> bool" where
  "Matcher2_has m flt = (map_of (keywordByFilter_sc m) (filter_text flt) \<noteq> None)"

text \<open>
  \<open>compilePatterns(filters)\<close>: \<open>None\<close> is \<open>null\<close>. A compiled object holds the sources of
  its two regular expressions (\<open>None\<close> for \<open>null\<close>). A URL filter has a pattern or a
  regular expression, whose \<open>source\<close> is the source it was made from.
\<close>

definition COMPILE_PATTERNS_MAX :: nat where
  "COMPILE_PATTERNS_MAX = 100"

definition patternSource :: "env \<Rightarrow> urlFilter \<Rightarrow> string" where
  "patternSource E flt =
     (case filter_pattern flt of
        Some pattern \<Rightarrow> filterToRegExp E pattern
      | None \<Rightarrow> (case filter_regexp flt of Some source \<Rightarrow> source | None \<Rightarrow> ''''))"

definition joinSources :: "string list \<Rightarrow> string" where
  "joinSources sources = concat (map (\<lambda>source. source @ ''|'') sources)"

definition compilePatterns :: "env \<Rightarrow> bucket \<Rightarrow> compiledPatterns option" where
  "compilePatterns E filters =
     (if (case filters of Single s \<Rightarrow> False | SetOf xs \<Rightarrow> length xs > COMPILE_PATTERNS_MAX)
      then None
      else
        let fs = map (fromText E) (bucketList filters);
            caseSensitive0 = joinSources (map (patternSource E) (filter filter_matchCase fs));
            caseInsensitive0 =
              joinSources (map (patternSource E) (filter (\<lambda>f. \<not> filter_matchCase f) fs))
        in if (caseSensitive0 \<noteq> '''' \<and> \<not> regexpValid E (butlast caseSensitive0))
              \<or> (caseInsensitive0 \<noteq> '''' \<and> \<not> regexpValid E (butlast caseInsensitive0))
           then None
           else Some \<lparr>caseSensitive =
                         (if caseSensitive0 \<noteq> '''' then Some (butlast caseSensitive0) else None),
                       caseInsensitive =
                         (if caseInsensitive0 \<noteq> '''' then Some (butlast caseInsensitive0)
                          else None)\<rparr>)"

definition CompiledPatterns_test :: "env \<Rightarrow> compiledPatterns \<Rightarrow> urlRequest \<Rightarrow> bool" where
  "CompiledPatterns_test E compiled request =
     ((case caseSensitive compiled of
         None \<Rightarrow> False | Some source \<Rightarrow> regexpTest E source (href request))
      \<or> (case caseInsensitive compiled of
         None \<Rightarrow> False | Some source \<Rightarrow> regexpTest E source (lowerCaseHref request)))"

text \<open>
  \<open>matchFilter\<close>: the result and the collection, which is \<open>None\<close> when it is omitted.
  A value of \<open>matches\<close> is truthy when it is \<open>true\<close>.
\<close>

definition matchFilter ::
  "env \<Rightarrow> urlFilter \<Rightarrow> urlRequest \<Rightarrow> 32 word \<Rightarrow> string option \<Rightarrow> urlFilter list option \<Rightarrow>
     urlFilter option \<times> urlFilter list option" where
  "matchFilter E flt request typeMask sitekey collection =
     (if URLFilter_matches E flt request typeMask sitekey = Some True
      then (case collection of
              None \<Rightarrow> (Some flt, None)
            | Some c \<Rightarrow> (None, Some (c @ [flt])))
      else (None, collection))"

text \<open>
  The loop over the filters of a keyword, shared by the three lookups: the first filter
  for which \<open>matchFilter\<close> returns a filter ends it. \<open>skipGeneric\<close> is
  \<open>specificOnly\<close>, under which generic filters are passed over.
\<close>

fun scanFilters ::
  "env \<Rightarrow> urlRequest \<Rightarrow> 32 word \<Rightarrow> string option \<Rightarrow> bool \<Rightarrow> string list \<Rightarrow>
     urlFilter list option \<Rightarrow> urlFilter option \<times> urlFilter list option" where
  "scanFilters E request typeMask sitekey skipGeneric [] collection = (None, collection)"
| "scanFilters E request typeMask sitekey skipGeneric (t # ts) collection =
     (let flt = fromText E t in
      if skipGeneric \<and> isGeneric flt
      then scanFilters E request typeMask sitekey skipGeneric ts collection
      else (case matchFilter E flt request typeMask sitekey collection of
              (Some r, c) \<Rightarrow> (Some flt, c)
            | (None, c) \<Rightarrow> scanFilters E request typeMask sitekey skipGeneric ts c))"

text \<open>
  \<open>_checkEntryMatchSimpleQuickCheck\<close>: the answer and the matcher with the compiled
  patterns of the keyword stored.
\<close>

definition checkEntryMatchSimpleQuickCheck ::
  "env \<Rightarrow> matcher2 \<Rightarrow> string \<Rightarrow> urlRequest \<Rightarrow> bucket \<Rightarrow> bool \<times> matcher2" where
  "checkEntryMatchSimpleQuickCheck E m keyword request filters =
     (case map_of (compiledPatternsByKeyword_sc m) keyword of
        Some compiled \<Rightarrow>
          ((case compiled of None \<Rightarrow> True | Some c \<Rightarrow> CompiledPatterns_test E c request), m)
      | None \<Rightarrow>
          (let compiled = compilePatterns E filters;
               m' = m\<lparr>compiledPatternsByKeyword_sc :=
                        AList.update keyword compiled (compiledPatternsByKeyword_sc m)\<rparr>
           in ((case compiled of None \<Rightarrow> True | Some c \<Rightarrow> CompiledPatterns_test E c request), m')))"

definition checkEntryMatchSimple ::
  "env \<Rightarrow> matcher2 \<Rightarrow> string \<Rightarrow> urlRequest \<Rightarrow> urlFilter list option \<Rightarrow>
     urlFilter option \<times> urlFilter list option \<times> matcher2" where
  "checkEntryMatchSimple E m keyword request collection =
     (let filters = map_of (simpleFiltersByKeyword m) keyword in
      if \<not> truthyBucket filters then (None, collection, m)
      else (case filters of
          None \<Rightarrow> (None, collection, m)
        | Some b \<Rightarrow>
            (case checkEntryMatchSimpleQuickCheck E m keyword request b of
               (ok, m') \<Rightarrow>
                 if ok
                 then (case scanFilters E request (RESOURCE_TYPES E) None False (bucketList b)
                              collection of
                         (r, c) \<Rightarrow> (r, c, m'))
                 else (None, collection, m'))))"

definition checkEntryMatchForType ::
  "env \<Rightarrow> matcher2 \<Rightarrow> string \<Rightarrow> urlRequest \<Rightarrow> 32 word \<Rightarrow> string option \<Rightarrow> bool \<Rightarrow>
     urlFilter list option \<Rightarrow> urlFilter option \<times> urlFilter list option" where
  "checkEntryMatchForType E m keyword request typeMask sitekey specificOnly collection =
     (case map_of (filterMapsByType_sc m) typeMask of
        None \<Rightarrow> (None, collection)
      | Some filtersForType \<Rightarrow>
          (let filters = map_of filtersForType keyword in
           if \<not> truthyBucket filters then (None, collection)
           else (case filters of
               None \<Rightarrow> (None, collection)
             | Some b \<Rightarrow>
                 scanFilters E request typeMask sitekey specificOnly (bucketList b) collection)))"

definition checkEntryMatchComplex ::
  "env \<Rightarrow> matcher2 \<Rightarrow> string \<Rightarrow> urlRequest \<Rightarrow> 32 word \<Rightarrow> string option \<Rightarrow> bool \<Rightarrow>
     urlFilter list option \<Rightarrow> urlFilter option \<times> urlFilter list option" where
  "checkEntryMatchComplex E m keyword request typeMask sitekey specificOnly collection =
     (let filters = map_of (complexFiltersByKeyword m) keyword in
      if \<not> truthyBucket filters then (None, collection)
      else (case filters of
          None \<Rightarrow> (None, collection)
        | Some b \<Rightarrow>
            scanFilters E request typeMask sitekey specificOnly (bucketList b) collection))"

definition checkEntryMatch ::
  "env \<Rightarrow> matcher2 \<Rightarrow> string \<Rightarrow> urlRequest \<Rightarrow> 32 word \<Rightarrow> string option \<Rightarrow> bool \<Rightarrow>
     urlFilter list option \<Rightarrow> urlFilter option \<times> urlFilter list option \<times> matcher2" where
  "checkEntryMatch E m keyword request typeMask sitekey specificOnly collection =
     (case (if \<not> specificOnly \<and> and typeMask (RESOURCE_TYPES E) \<noteq> 0
            then checkEntryMatchSimple E m keyword request collection
            else (None, collection, m)) of
        (Some flt, c, m') \<Rightarrow> (Some flt, c, m')
      | (None, c, m') \<Rightarrow>
          if and typeMask (SPECIAL_TYPES E) \<noteq> 0 \<and> and typeMask (typeMask - 1) = 0
          then (case checkEntryMatchForType E m' keyword request typeMask sitekey specificOnly c of
                  (r, c') \<Rightarrow> (r, c', m'))
          else (case checkEntryMatchComplex E m' keyword request typeMask sitekey specificOnly c of
                  (r, c') \<Rightarrow> (r, c', m')))"

text \<open>
  \<open>request.lowerCaseHref.match(/[a-z0-9%]{2,}|$/g)\<close>: the runs of two or more keyword
  characters, each taken whole, and the empty match at the end.
\<close>

function urlCandidates :: "string \<Rightarrow> string list" where
  "urlCandidates [] = ['''']"
| "urlCandidates (c # s) =
     (let run = takeWhile isKeywordChar (c # s); rest = dropWhile isKeywordChar (c # s) in
      if length run \<ge> 2 then run # urlCandidates rest else urlCandidates s)"
  by pat_completeness auto
termination
proof (relation "measure length")
  show "wf (measure length)" by simp
next
  fix c :: char and s run rest
  assume "run = takeWhile isKeywordChar (c # s)" "rest = dropWhile isKeywordChar (c # s)"
    "2 \<le> length run"
  then have "length run + length rest = length (c # s)"
    by (metis length_append takeWhile_dropWhile_id)
  then show "(rest, c # s) \<in> measure length" using \<open>2 \<le> length run\<close> by simp
next
  fix c :: char and s run rest
  show "(s, c # s) \<in> measure length" by simp
qed

declare urlCandidates.simps [simp del]

text \<open>
  The loop of \<open>Matcher.match\<close> over the candidates. The request is the view that
  \<open>URLRequest.from(url, docDomain)\<close> gives.
\<close>

fun matchLoop ::
  "env \<Rightarrow> matcher2 \<Rightarrow> urlRequest \<Rightarrow> 32 word \<Rightarrow> string option \<Rightarrow> bool \<Rightarrow> string list \<Rightarrow>
     urlFilter option \<times> matcher2" where
  "matchLoop E m request typeMask sitekey specificOnly [] = (None, m)"
| "matchLoop E m request typeMask sitekey specificOnly (candidate # candidates) =
     (if isBadKeyword candidate
      then matchLoop E m request typeMask sitekey specificOnly candidates
      else (case checkEntryMatch E m candidate request typeMask sitekey specificOnly None of
              (Some r, c, m') \<Rightarrow> (Some r, m')
            | (None, c, m') \<Rightarrow> matchLoop E m' request typeMask sitekey specificOnly candidates))"

definition Matcher2_match ::
  "env \<Rightarrow> matcher2 \<Rightarrow> urlRequest \<Rightarrow> 32 word \<Rightarrow> string option \<Rightarrow> bool \<Rightarrow>
     urlFilter option \<times> matcher2" where
  "Matcher2_match E m request typeMask sitekey specificOnly =
     matchLoop E m request typeMask sitekey specificOnly (urlCandidates (lowerCaseHref request))"

section \<open>CombinedMatcher (lib/matcher.js)\<close>

text \<open>
  Modelled from the spec: the class \<open>Cache\<close> of \<open>caching.js\<close> is not part of the sources
  at hand. The result cache is an LRU cache of capacity 10 000. The entries are listed from
  the least to the most recently used: \<open>get\<close> moves the entry that it finds to the end,
  \<open>set\<close> puts its entry at the end and drops the first entry when the capacity would be
  exceeded, and \<open>clear\<close> empties the cache. The keys are strings.
\<close>

record searchResults =
  hits_blocking :: "urlFilter list option"
  hits_whitelist :: "urlFilter list option"

datatype cacheValue = MatchValue "urlFilter option" | SearchValue searchResults

type_synonym resultCache = "(string \<times> cacheValue) list"

definition Cache_get :: "resultCache \<Rightarrow> string \<Rightarrow> cacheValue option \<times> resultCache" where
  "Cache_get cache key =
     (case map_of cache key of
        None \<Rightarrow> (None, cache)
      | Some v \<Rightarrow> (Some v, AList.delete key cache @ [(key, v)]))"

definition Cache_set :: "resultCache \<Rightarrow> string \<Rightarrow> cacheValue \<Rightarrow> resultCache" where
  "Cache_set cache key v =
     (let others = AList.delete key cache
      in (if length others \<ge> 10000 then tl others else others) @ [(key, v)])"

definition Cache_clear :: "resultCache \<Rightarrow> resultCache" where
  "Cache_clear cache = []"

text \<open>
  The strings that the operator \<open>+\<close> makes of the parts of a key: a type mask gives its
  decimal numeral (the mask read as a non-negative integer), \<open>null\<close> gives \<open>null\<close>
  and a boolean gives \<open>true\<close> or \<open>false\<close>.
\<close>

function showNat :: "nat \<Rightarrow> string" where
  "showNat n =
     (if n < 10 then [''0123456789'' ! n]
      else showNat (n div 10) @ [''0123456789'' ! (n mod 10)])"
  by pat_completeness auto
termination
  by (relation "measure id") auto

declare showNat.simps [simp del]

definition numberToString :: "32 word \<Rightarrow> string" where
  "numberToString w = showNat (unat w)"

definition nullableToString :: "string option \<Rightarrow> string" where
  "nullableToString x = (case x of None \<Rightarrow> ''null'' | Some s \<Rightarrow> s)"

definition booleanToString :: "bool \<Rightarrow> string" where
  "booleanToString b = (if b then ''true'' else ''false'')"

text \<open>
  \<open>url.href + " " + typeMask + " " + docDomain + " " + sitekey + " " + specificOnly\<close>, and
  the key of \<open>search\<close>, which begins with \<open>"* "\<close> and ends with the filter type.
\<close>

definition matchKey ::
  "string \<Rightarrow> 32 word \<Rightarrow> string option \<Rightarrow> string option \<Rightarrow> bool \<Rightarrow> string" where
  "matchKey url typeMask docDomain sitekey specificOnly =
     url @ '' '' @ numberToString typeMask @ '' '' @ nullableToString docDomain @ '' ''
       @ nullableToString sitekey @ '' '' @ booleanToString specificOnly"

definition searchKey ::
  "string \<Rightarrow> 32 word \<Rightarrow> string option \<Rightarrow> string option \<Rightarrow> bool \<Rightarrow> string \<Rightarrow> string" where
  "searchKey url typeMask docDomain sitekey specificOnly filterType =
     ''* '' @ url @ '' '' @ numberToString typeMask @ '' '' @ nullableToString docDomain @ '' ''
       @ nullableToString sitekey @ '' '' @ booleanToString specificOnly @ '' '' @ filterType"

record combinedMatcher =
  blocking :: matcher2
  whitelist :: matcher2
  resultCache :: resultCache

definition CombinedMatcher_new :: combinedMatcher where
  "CombinedMatcher_new = \<lparr>blocking = Matcher2_new, whitelist = Matcher2_new, resultCache = []\<rparr>"

definition CombinedMatcher_clear :: "combinedMatcher \<Rightarrow> combinedMatcher" where
  "CombinedMatcher_clear C =
     \<lparr>blocking = Matcher2_clear (blocking C), whitelist = Matcher2_clear (whitelist C),
      resultCache = Cache_clear (resultCache C)\<rparr>"

definition CombinedMatcher_add :: "env \<Rightarrow> combinedMatcher \<Rightarrow> urlFilter \<Rightarrow> combinedMatcher" where
  "CombinedMatcher_add E C flt =
     (let C1 = (if filter_type flt = Whitelist
                then C\<lparr>whitelist := Matcher2_add E (whitelist C) flt\<rparr>
                else C\<lparr>blocking := Matcher2_add E (blocking C) flt\<rparr>)
      in C1\<lparr>resultCache := Cache_clear (resultCache C1)\<rparr>)"

definition CombinedMatcher_remove :: "env \<Rightarrow> combinedMatcher \<Rightarrow> urlFilter \<Rightarrow> combinedMatcher" where
  "CombinedMatcher_remove E C flt =
     (let C1 = (if filter_type flt = Whitelist
                then C\<lparr>whitelist := Matcher2_remove E (whitelist C) flt\<rparr>
                else C\<lparr>blocking := Matcher2_remove E (blocking C) flt\<rparr>)
      in C1\<lparr>resultCache := Cache_clear (resultCache C1)\<rparr>)"

definition CombinedMatcher_has :: "combinedMatcher \<Rightarrow> urlFilter \<Rightarrow> bool" where
  "CombinedMatcher_has C flt =
     (if filter_type flt = Whitelist then Matcher2_has (whitelist C) flt
      else Matcher2_has (blocking C) flt)"

text \<open>
  The two loops of \<open>_matchInternal\<close>, \<open>for (i = 0; !hit && i < l; i++)\<close>: \<open>hit\<close> is the
  hit so far.
\<close>

fun internalLoop ::
  "env \<Rightarrow> matcher2 \<Rightarrow> urlRequest \<Rightarrow> 32 word \<Rightarrow> string option \<Rightarrow> bool \<Rightarrow>
     urlFilter option \<Rightarrow> string list \<Rightarrow> urlFilter option \<times> matcher2" where
  "internalLoop E m request typeMask sitekey specificOnly hit [] = (hit, m)"
| "internalLoop E m request typeMask sitekey specificOnly hit (candidate # candidates) =
     (if hit \<noteq> None then (hit, m)
      else if isBadKeyword candidate
      then internalLoop E m request typeMask sitekey specificOnly hit candidates
      else (case checkEntryMatch E m candidate request typeMask sitekey specificOnly None of
              (r, c, m') \<Rightarrow>
                internalLoop E m' request typeMask sitekey specificOnly r candidates))"

definition matchInternal ::
  "env \<Rightarrow> combinedMatcher \<Rightarrow> urlRequest \<Rightarrow> 32 word \<Rightarrow> string option \<Rightarrow> bool \<Rightarrow>
     urlFilter option \<times> combinedMatcher" where
  "matchInternal E C request typeMask sitekey specificOnly =
     (let candidates = urlCandidates (lowerCaseHref request);
          (blockingHit, b') =
             (if and typeMask (not (WHITELISTING_TYPES E)) \<noteq> 0
              then internalLoop E (blocking C) request typeMask sitekey specificOnly None candidates
              else (None, blocking C));
          (whitelistHit, w') =
             (if blockingHit \<noteq> None \<or> and typeMask (WHITELISTING_TYPES E) \<noteq> 0
              then internalLoop E (whitelist C) request typeMask sitekey False None candidates
              else (None, whitelist C))
      in ((case whitelistHit of Some w \<Rightarrow> Some w | None \<Rightarrow> blockingHit),
          C\<lparr>blocking := b', whitelist := w'\<rparr>))"

text \<open>The loop of \<open>_searchInternal\<close> over the candidates, with the two collections.\<close>

fun searchLoop ::
  "env \<Rightarrow> matcher2 \<Rightarrow> matcher2 \<Rightarrow> urlRequest \<Rightarrow> 32 word \<Rightarrow> string option \<Rightarrow> bool \<Rightarrow>
     bool \<Rightarrow> bool \<Rightarrow> urlFilter list option \<Rightarrow> urlFilter list option \<Rightarrow> string list \<Rightarrow>
     (urlFilter list option \<times> urlFilter list option) \<times> matcher2 \<times> matcher2" where
  "searchLoop E b w request typeMask sitekey specificOnly searchBlocking searchWhitelist
      hb hw [] = ((hb, hw), b, w)"
| "searchLoop E b w request typeMask sitekey specificOnly searchBlocking searchWhitelist
      hb hw (candidate # candidates) =
     (if isBadKeyword candidate
      then searchLoop E b w request typeMask sitekey specificOnly searchBlocking searchWhitelist
             hb hw candidates
      else
        (case (if searchBlocking
               then checkEntryMatch E b candidate request typeMask sitekey specificOnly hb
               else (None, hb, b)) of
           (r1, hb', b') \<Rightarrow>
             (case (if searchWhitelist
                    then checkEntryMatch E w candidate request typeMask sitekey False hw
                    else (None, hw, w)) of
                (r2, hw', w') \<Rightarrow>
                  searchLoop E b' w' request typeMask sitekey specificOnly searchBlocking
                    searchWhitelist hb' hw' candidates)))"

definition searchInternal ::
  "env \<Rightarrow> combinedMatcher \<Rightarrow> urlRequest \<Rightarrow> 32 word \<Rightarrow> string option \<Rightarrow> bool \<Rightarrow> string \<Rightarrow>
     searchResults \<times> combinedMatcher" where
  "searchInternal E C request typeMask sitekey specificOnly filterType =
     (let searchBlocking0 = (filterType = ''blocking'' \<or> filterType = ''all'');
          searchWhitelist = (filterType = ''whitelist'' \<or> filterType = ''all'');
          hb = (if searchBlocking0 then Some [] else None);
          hw = (if searchWhitelist then Some [] else None);
          searchBlocking = (searchBlocking0 \<and> and typeMask (not (WHITELISTING_TYPES E)) \<noteq> 0)
      in case searchLoop E (blocking C) (whitelist C) request typeMask sitekey specificOnly
                searchBlocking searchWhitelist hb hw (urlCandidates (lowerCaseHref request)) of
           ((hb', hw'), b', w') \<Rightarrow>
             (\<lparr>hits_blocking = hb', hits_whitelist = hw'\<rparr>, C\<lparr>blocking := b', whitelist := w'\<rparr>))"

text \<open>
  \<open>match\<close> and \<open>search\<close>, for the address \<open>url.href\<close>: the cached value when the
  key has one, whatever the query was that stored it, else the value of \<open>_matchInternal\<close>
  or \<open>_searchInternal\<close> on the request \<open>URLRequest.from(url, docDomain)\<close>, which is
  stored.
\<close>

definition CombinedMatcher_match ::
  "env \<Rightarrow> combinedMatcher \<Rightarrow> string \<Rightarrow> 32 word \<Rightarrow> string option \<Rightarrow> string option \<Rightarrow> bool \<Rightarrow>
     cacheValue \<times> combinedMatcher" where
  "CombinedMatcher_match E C url typeMask docDomain sitekey specificOnly =
     (let key = matchKey url typeMask docDomain sitekey specificOnly in
      case Cache_get (resultCache C) key of
        (Some result, cache) \<Rightarrow> (result, C\<lparr>resultCache := cache\<rparr>)
      | (None, cache) \<Rightarrow>
          (case matchInternal E C (requestFrom E url docDomain) typeMask sitekey specificOnly of
             (result, C') \<Rightarrow>
               (MatchValue result,
                C'\<lparr>resultCache := Cache_set (resultCache C') key (MatchValue result)\<rparr>)))"

definition CombinedMatcher_search ::
  "env \<Rightarrow> combinedMatcher \<Rightarrow> string \<Rightarrow> 32 word \<Rightarrow> string option \<Rightarrow> string option \<Rightarrow> bool \<Rightarrow>
     string \<Rightarrow> cacheValue \<times> combinedMatcher" where
  "CombinedMatcher_search E C url typeMask docDomain sitekey specificOnly filterType =
     (let key = searchKey url typeMask docDomain sitekey specificOnly filterType in
      case Cache_get (resultCache C) key of
        (Some result, cache) \<Rightarrow> (result, C\<lparr>resultCache := cache\<rparr>)
      | (None, cache) \<Rightarrow>
          (case searchInternal E C (requestFrom E url docDomain) typeMask sitekey specificOnly
                  filterType of
             (result, C') \<Rightarrow>
               (SearchValue result,
                C'\<lparr>resultCache := Cache_set (resultCache C') key (SearchValue result)\<rparr>)))"

section \<open>Example filters\<close>

text \<open>
  The filters that \<open>Filter.fromText\<close> gives for four texts, and an environment whose
  \<open>fromText\<close> knows them: the option \<open>script\<close> sets the content type 2, the option
  \<open>domain=a.com\<close> gives the domains Map of \<open>parseDomains\<close> for one included domain, and
  the prefix \<open>@@\<close> makes a whitelist filter. With a content type other than
  \<open>RESOURCE_TYPES\<close> they are complex filters, which are matched without any regular
  expression.
\<close>

definition adsBlocking :: urlFilter where
  "adsBlocking = \<lparr>filter_text = ''/ads^$script'', filter_type = Blocking,
     filter_pattern = Some ''/ads^'', filter_regexp = None, filter_contentType = 2,
     filter_matchCase = False, filter_thirdParty = None, filter_domains = None,
     filter_sitekeys = None\<rparr>"

definition bannerBlocking :: urlFilter where
  "bannerBlocking = \<lparr>filter_text = ''/ads/banner$script'', filter_type = Blocking,
     filter_pattern = Some ''/ads/banner'', filter_regexp = None, filter_contentType = 2,
     filter_matchCase = False, filter_thirdParty = None, filter_domains = None,
     filter_sitekeys = None\<rparr>"

definition adsWhitelist :: urlFilter where
  "adsWhitelist = \<lparr>filter_text = ''@@/ads^$script'', filter_type = Whitelist,
     filter_pattern = Some ''/ads^'', filter_regexp = None, filter_contentType = 2,
     filter_matchCase = False, filter_thirdParty = None, filter_domains = None,
     filter_sitekeys = None\<rparr>"

definition adsBlockingOnDomain :: urlFilter where
  "adsBlockingOnDomain = \<lparr>filter_text = ''/ads^$script,domain=a.com'', filter_type = Blocking,
     filter_pattern = Some ''/ads^'', filter_regexp = None, filter_contentType = 2,
     filter_matchCase = False, filter_thirdParty = None,
     filter_domains = Some [('''', False), (''a.com'', True)], filter_sitekeys = None\<rparr>"

definition exampleEnv :: env where
  "exampleEnv = testEnv\<lparr>fromText :=
     (\<lambda>t. case List.find (\<lambda>f. filter_text f = t)
                  [adsBlocking, bannerBlocking, adsWhitelist, adsBlockingOnDomain] of
            Some f \<Rightarrow> f
          | None \<Rightarrow> fromText testEnv t)\<rparr>"

definition adsRequest :: urlRequest where
  "adsRequest = \<lparr>href = ''http://a.com/ads/banner'', lowerCaseHref = ''http://a.com/ads/banner'',
     documentHostname = Some ''a.com'', thirdParty = False\<rparr>"

text \<open>\<open>s.includes(p)\<close>\<close>

definition contains :: "string \<Rightarrow> string \<Rightarrow> bool" where
  "contains s p = (indexOf s p \<noteq> None)"

text \<open>
  An environment in which a regular expression matches the addresses that contain its
  source, as the engine has it for a source without special characters.
\<close>

definition containsEnv :: env where
  "containsEnv = testEnv\<lparr>regexpTest := (\<lambda>source location. contains location source)\<rparr>"

text \<open>
  Two filters written as regular expressions, \<open>/(x)y/\<close> and \<open>/(a)(b)\2/\<close> (\<open>CHR 0x5C\<close> is
  the backslash), and an environment that knows them. Its \<open>regexpTest\<close> gives the
  values of the JavaScript engine for the three sources that arise: \<open>(x)y\<close> matches an
  address that contains \<open>xy\<close>; \<open>(a)(b)\2\<close> matches one that contains \<open>abb\<close>, the
  backreference being to the second group \<open>(b)\<close>; in the alternation
  \<open>(x)y|(a)(b)\2\<close> the groups are numbered from the left, so that the backreference is to
  \<open>(a)\<close>, and it matches an address that contains \<open>xy\<close> or \<open>aba\<close>.
\<close>

definition backrefSource :: string where
  "backrefSource = ''(a)(b)'' @ [CHR 0x5C] @ ''2''"

definition regexpX :: urlFilter where
  "regexpX = \<lparr>filter_text = ''/(x)y/'', filter_type = Blocking, filter_pattern = None,
     filter_regexp = Some ''(x)y'', filter_contentType = 16777215, filter_matchCase = False,
     filter_thirdParty = None, filter_domains = None, filter_sitekeys = None\<rparr>"

definition regexpBackref :: urlFilter where
  "regexpBackref = \<lparr>filter_text = ''/'' @ backrefSource @ ''/'', filter_type = Blocking,
     filter_pattern = None, filter_regexp = Some backrefSource, filter_contentType = 16777215,
     filter_matchCase = False, filter_thirdParty = None, filter_domains = None,
     filter_sitekeys = None\<rparr>"

definition backrefEnv :: env where
  "backrefEnv = testEnv\<lparr>
     regexpTest := (\<lambda>source s.
        if source = ''(x)y'' then contains s ''xy''
        else if source = backrefSource then contains s ''abb''
        else if source = ''(x)y|'' @ backrefSource then contains s ''xy'' \<or> contains s ''aba''
        else False),
     fromText := (\<lambda>t. if t = ''/(x)y/'' then regexpX else regexpBackref)\<rparr>"

definition abbRequest :: urlRequest where
  "abbRequest = \<lparr>href = ''http://h/abb'', lowerCaseHref = ''http://h/abb'',
     documentHostname = Some ''h'', thirdParty = False\<rparr>"

section \<open>Invariants of the matcher\<close>

text \<open>
  The filter lists after \<open>addFilterByKeyword\<close> and \<open>removeFilterByKeyword\<close>, as functions
  of the list found under the keyword.
\<close>

fun addB :: "string \<Rightarrow> bucket option \<Rightarrow> bucket" where
  "addB t None = Single t"
| "addB t (Some (Single s)) = (if t \<noteq> s then SetOf [s, t] else Single s)"
| "addB t (Some (SetOf xs)) = SetOf (if t \<in> set xs then xs else xs @ [t])"

fun removeB :: "string \<Rightarrow> bucket option \<Rightarrow> bucket option" where
  "removeB t None = None"
| "removeB t (Some (Single s)) = (if t = s then None else Some (Single s))"
| "removeB t (Some (SetOf xs)) =
     (if length (removeAll t xs) = 1 then Some (Single (hd (removeAll t xs)))
      else Some (SetOf (removeAll t xs)))"

text \<open>The texts of a list, and its shape: a \<open>Set\<close> holds two or more distinct texts.\<close>

fun bucketTexts :: "bucket option \<Rightarrow> string set" where
  "bucketTexts None = {}"
| "bucketTexts (Some b) = set (bucketList b)"

fun bucketShape :: "bucket option \<Rightarrow> bool" where
  "bucketShape (Some (SetOf xs)) = (distinct xs \<and> length xs \<ge> 2)"
| "bucketShape b = True"

text \<open>The list of a keyword in the map of a type.\<close>

definition typeBucket ::
  "(32 word \<times> (string \<times> bucket) list) list \<Rightarrow> 32 word \<Rightarrow> string \<Rightarrow> bucket option" where
  "typeBucket maps ty k = (case map_of maps ty of None \<Rightarrow> None | Some fm \<Rightarrow> map_of fm k)"

definition typeLookup :: "matcher2 \<Rightarrow> 32 word \<Rightarrow> string \<Rightarrow> bucket option" where
  "typeLookup m = typeBucket (filterMapsByType_sc m)"

text \<open>
  A filter is canonical when it is the filter that \<open>Filter.fromText\<close> gives for its text.
\<close>

definition canonical :: "env \<Rightarrow> urlFilter \<Rightarrow> bool" where
  "canonical E f = (fromText E (filter_text f) = f)"

text \<open>
  The invariant of a matcher: the texts in the lists of a keyword are texts that
  \<open>_keywordByFilter\<close> maps to the keyword, the simple lists hold simple filters, the
  complex lists and the maps of the types hold complex filters, a map of a type holds
  filters of that type, and the lists have their shape.
\<close>

definition wfm :: "env \<Rightarrow> matcher2 \<Rightarrow> bool" where
  "wfm E m =
     ((\<forall>k t. t \<in> bucketTexts (map_of (simpleFiltersByKeyword m) k) \<longrightarrow>
         map_of (keywordByFilter_sc m) t = Some k \<and> isSimple E (fromText E t))
      \<and> (\<forall>k t. t \<in> bucketTexts (map_of (complexFiltersByKeyword m) k) \<longrightarrow>
         map_of (keywordByFilter_sc m) t = Some k \<and> \<not> isSimple E (fromText E t))
      \<and> (\<forall>ty k t. t \<in> bucketTexts (typeLookup m ty k) \<longrightarrow>
         map_of (keywordByFilter_sc m) t = Some k \<and> \<not> isSimple E (fromText E t)
         \<and> ty \<in> set (enumerateTypes (filter_contentType (fromText E t)) (SPECIAL_TYPES E)))
      \<and> (\<forall>k. bucketShape (map_of (simpleFiltersByKeyword m) k))
      \<and> (\<forall>k. bucketShape (map_of (complexFiltersByKeyword m) k))
      \<and> (\<forall>ty k. bucketShape (typeLookup m ty k)))"

text \<open>
  The compiled patterns stored for a keyword are those of its simple filters.
\<close>

definition coherent :: "env \<Rightarrow> matcher2 \<Rightarrow> bool" where
  "coherent E m =
     (\<forall>k c b. map_of (compiledPatternsByKeyword_sc m) k = Some c
          \<and> map_of (simpleFiltersByKeyword m) k = Some b \<longrightarrow> c = compilePatterns E b)"

text \<open>
  Two matchers are equivalent when they differ at most in the compiled patterns they
  have stored and in maps of types that hold no filter.
\<close>

definition equivalent :: "matcher2 \<Rightarrow> matcher2 \<Rightarrow> bool" where
  "equivalent m1 m2 =
     (keywordByFilter_sc m1 = keywordByFilter_sc m2
      \<and> simpleFiltersByKeyword m1 = simpleFiltersByKeyword m2
      \<and> complexFiltersByKeyword m1 = complexFiltersByKeyword m2
      \<and> typeLookup m1 = typeLookup m2)"

text \<open>The result and the collection of a lookup, without the matcher.\<close>

definition outcome :: "'a \<times> 'b \<times> 'c \<Rightarrow> 'a \<times> 'b" where
  "outcome x = (fst x, fst (snd x))"

text \<open>
  The texts that a matcher holds are texts of filters of one class, and
  \<open>Filter.fromText\<close> gives a filter with that text.
\<close>

definition holdsType :: "env \<Rightarrow> filterType \<Rightarrow> matcher2 \<Rightarrow> bool" where
  "holdsType E ty m =
     (\<forall>t k. map_of (keywordByFilter_sc m) t = Some k \<longrightarrow>
        filter_type (fromText E t) = ty \<and> filter_text (fromText E t) = t)"

text \<open>
  The queries, the operations on a \<open>CombinedMatcher\<close>, and the states that they reach.
\<close>

datatype query =
    MatchQuery string "32 word" "string option" "string option" bool
  | SearchQuery string "32 word" "string option" "string option" bool string

fun ask :: "env \<Rightarrow> combinedMatcher \<Rightarrow> query \<Rightarrow> cacheValue \<times> combinedMatcher" where
  "ask E C (MatchQuery url typeMask docDomain sitekey specificOnly) =
     CombinedMatcher_match E C url typeMask docDomain sitekey specificOnly"
| "ask E C (SearchQuery url typeMask docDomain sitekey specificOnly filterType) =
     CombinedMatcher_search E C url typeMask docDomain sitekey specificOnly filterType"

datatype combinedOp = CAdd urlFilter | CRemove urlFilter | CClear | CQuery query

fun CombinedMatcher_apply :: "env \<Rightarrow> combinedMatcher \<Rightarrow> combinedOp \<Rightarrow> combinedMatcher" where
  "CombinedMatcher_apply E C (CAdd flt) = CombinedMatcher_add E C flt"
| "CombinedMatcher_apply E C (CRemove flt) = CombinedMatcher_remove E C flt"
| "CombinedMatcher_apply E C CClear = CombinedMatcher_clear C"
| "CombinedMatcher_apply E C (CQuery q) = snd (ask E C q)"

definition CombinedMatcher_run :: "env \<Rightarrow> combinedOp list \<Rightarrow> combinedMatcher" where
  "CombinedMatcher_run E ops = foldl (CombinedMatcher_apply E) CombinedMatcher_new ops"

text \<open>
  The parts of a query are plain when the key tells them apart: the address, the document
  domain, the sitekey and the filter type contain no space, and the document domain and
  the sitekey are not the string \<open>null\<close>.
\<close>

definition plain :: "string \<Rightarrow> bool" where
  "plain s = (CHR '' '' \<notin> set s)"

definition plainOption :: "string option \<Rightarrow> bool" where
  "plainOption x = (case x of None \<Rightarrow> True | Some s \<Rightarrow> plain s \<and> s \<noteq> ''null'')"

fun plainQuery :: "query \<Rightarrow> bool" where
  "plainQuery (MatchQuery url typeMask docDomain sitekey specificOnly) =
     (plain url \<and> plainOption docDomain \<and> plainOption sitekey)"
| "plainQuery (SearchQuery url typeMask docDomain sitekey specificOnly filterType) =
     (plain url \<and> plainOption docDomain \<and> plainOption sitekey \<and> plain filterType)"

fun keyOf :: "query \<Rightarrow> string" where
  "keyOf (MatchQuery url typeMask docDomain sitekey specificOnly) =
     matchKey url typeMask docDomain sitekey specificOnly"
| "keyOf (SearchQuery url typeMask docDomain sitekey specificOnly filterType) =
     searchKey url typeMask docDomain sitekey specificOnly filterType"

text \<open>
  The operations of a history in which the filters are canonical and the queries are
  plain.
\<close>

fun canonicalOp :: "env \<Rightarrow> combinedOp \<Rightarrow> bool" where
  "canonicalOp E (CAdd flt) = canonical E flt"
| "canonicalOp E (CRemove flt) = canonical E flt"
| "canonicalOp E CClear = True"
| "canonicalOp E (CQuery q) = plainQuery q"

text \<open>What an operation returns, and what a sequence of operations returns one after another.\<close>

fun answer :: "env \<Rightarrow> combinedMatcher \<Rightarrow> combinedOp \<Rightarrow> cacheValue option" where
  "answer E C (CQuery q) = Some (fst (ask E C q))"
| "answer E C other = None"

fun answers :: "env \<Rightarrow> combinedMatcher \<Rightarrow> combinedOp list \<Rightarrow> cacheValue option list" where
  "answers E C [] = []"
| "answers E C (q # qs) = answer E C q # answers E (CombinedMatcher_apply E C q) qs"

text \<open>
  The value that a query has without the result cache, and the invariant of the cache: a
  stored value is the value of a plain query with this key in the present state.
\<close>

fun expected :: "env \<Rightarrow> combinedMatcher \<Rightarrow> query \<Rightarrow> cacheValue" where
  "expected E C (MatchQuery url typeMask docDomain sitekey specificOnly) =
     MatchValue (fst (matchInternal E C (requestFrom E url docDomain) typeMask sitekey specificOnly))"
| "expected E C (SearchQuery url typeMask docDomain sitekey specificOnly filterType) =
     SearchValue (fst (searchInternal E C (requestFrom E url docDomain) typeMask sitekey
                         specificOnly filterType))"

definition cacheCoherent :: "env \<Rightarrow> combinedMatcher \<Rightarrow> bool" where
  "cacheCoherent E C =
     (distinct (map fst (resultCache C))
      \<and> (\<forall>key v. map_of (resultCache C) key = Some v \<longrightarrow>
            (\<exists>q. plainQuery q \<and> keyOf q = key \<and> v = expected E C q)))"

definition CombinedMatcher_inv :: "env \<Rightarrow> combinedMatcher \<Rightarrow> bool" where
  "CombinedMatcher_inv E C =
     (wfm E (blocking C) \<and> wfm E (whitelist C)
      \<and> coherent E (blocking C) \<and> coherent E (whitelist C)
      \<and> holdsType E Blocking (blocking C) \<and> holdsType E Whitelist (whitelist C)
      \<and> cacheCoherent E C)"

definition equivalentC :: "combinedMatcher \<Rightarrow> combinedMatcher \<Rightarrow> bool" where
  "equivalentC C1 C2 =
     (equivalent (blocking C1) (blocking C2) \<and> equivalent (whitelist C1) (whitelist C2))"

text \<open>
  A filter that a matcher may return for a request: the filter of a text that the matcher
  holds, which matches the request, and which is not generic when only specific filters
  are asked for.
\<close>

definition heldMatch ::
  "env \<Rightarrow> matcher2 \<Rightarrow> urlRequest \<Rightarrow> 32 word \<Rightarrow> string option \<Rightarrow> bool \<Rightarrow> urlFilter \<Rightarrow> bool" where
  "heldMatch E m r tm sk so f =
     (\<exists>t. f = fromText E t \<and> map_of (keywordByFilter_sc m) t \<noteq> None
          \<and> URLFilter_matches E f r tm sk = Some True \<and> \<not> (so \<and> isGeneric f))"

section \<open>Verified properties\<close>

subsection \<open>FiltersByDomain: the representation invariant\<close>

lemma set_update_subset: "set (AList.update k v m) \<subseteq> insert (k, v) (set m)"
  by (induction m) auto

lemma set_delete_subset: "set (AList.delete k m) \<subseteq> set m"
  by (induction m) auto














subsection \<open>FiltersByDomain: adding and removing\<close>

lemma update_absent: "k \<notin> fst ` set m \<Longrightarrow> AList.update k v m = m @ [(k, v)]"
  by (induction m) auto

lemma delete_append_last: "k \<notin> fst ` set m \<Longrightarrow> AList.delete k (m @ [(k, v)]) = m"
  by (induction m) auto

lemma update_update_swap:
  "k \<noteq> d \<Longrightarrow> k \<in> fst ` set m \<Longrightarrow>
     AList.update k v (AList.update d e m) = AList.update d e (AList.update k v m)"
  by (induction m) auto

lemma map_of_None_keys: "map_of m k = None \<Longrightarrow> k \<notin> fst ` set m"
  by (simp add: map_of_eq_None_iff)

lemma map_of_Some_keys: "map_of m k = Some v \<Longrightarrow> k \<in> fst ` set m"
  by (metis map_of_eq_None_iff option.distinct(1))

lemma add_step_act: "add_step t m (d, inc) = apply_act d (add_act t (d, inc) (map_of m d)) m"
  by (auto simp: add_step_def add_act_def split: option.splits entry.splits)

lemma remove_step_act: "remove_step t m d = apply_act d (remove_act t (map_of m d)) m"
  by (auto simp: remove_step_def remove_act_def Let_def split: option.splits entry.splits prod.splits)

lemma map_of_apply_act_other: "d' \<noteq> d \<Longrightarrow> map_of (apply_act d a m) d' = map_of m d'"
  by (cases a) (auto simp: update_conv')

lemma remove_act_Put: "remove_act t eo = Put e \<Longrightarrow> eo \<noteq> None"
  by (cases eo) (auto simp: remove_act_def)

lemma apply_act_commute:
  assumes "d \<noteq> d'" "\<And>e. a = Put e \<Longrightarrow> d \<in> fst ` set m"
  shows "apply_act d a (apply_act d' a' m) = apply_act d' a' (apply_act d a m)"
proof (cases a)
  case Keep then show ?thesis by simp
next
  case (Put e)
  then have k: "d \<in> fst ` set m" using assms(2) by simp
  show ?thesis
  proof (cases a')
    case Keep then show ?thesis by simp
  next
    case (Put e')
    then show ?thesis using \<open>a = Put e\<close> assms(1) k update_update_swap[of d d' m e e'] by simp
  next
    case Del
    then show ?thesis using \<open>a = Put e\<close> assms(1) delete_update[of d d' e m] by simp
  qed
next
  case Del
  then show ?thesis using assms(1) by (cases a') (auto simp: delete_update delete_twist)
qed

lemma remove_add_commute:
  assumes "d \<noteq> d'"
  shows "remove_step t (add_step t X (d', inc')) d = add_step t (remove_step t X d) (d', inc')"
proof -
  have a: "map_of (add_step t X (d', inc')) d = map_of X d"
    using assms by (simp add: add_step_act map_of_apply_act_other)
  have r: "map_of (remove_step t X d) d' = map_of X d'"
    using assms by (simp add: remove_step_act map_of_apply_act_other)
  have "remove_step t (add_step t X (d', inc')) d
      = apply_act d (remove_act t (map_of X d)) (apply_act d' (add_act t (d', inc') (map_of X d')) X)"
    using a by (simp add: remove_step_act) (simp add: add_step_act)
  also have "\<dots> = apply_act d' (add_act t (d', inc') (map_of X d')) (apply_act d (remove_act t (map_of X d)) X)"
    using assms by (intro apply_act_commute) (auto dest!: remove_act_Put intro: map_of_Some_keys)
  also have "\<dots> = add_step t (remove_step t X d) (d', inc')"
    using r by (simp add: add_step_act) (simp add: remove_step_act)
  finally show ?thesis .
qed

lemma step_round_trip:
  assumes t: "t \<noteq> ''''"
    and c: "case map_of m d of None \<Rightarrow> True | Some e \<Rightarrow> entry_wf e \<and> \<not> entry_has e t"
  shows "remove_step t (add_step t m (d, inc)) d = m"
proof (cases "\<not> inc \<and> d = ''''")
  case skip: True
  have "remove_act t (map_of m d) = Keep \<or> (\<exists>e. map_of m d = Some e \<and> remove_act t (map_of m d) = Put e)"
  proof (cases "map_of m d")
    case None then show ?thesis by (simp add: remove_act_def)
  next
    case (Some e)
    show ?thesis
    proof (cases e)
      case (Bare s) then show ?thesis using c Some by (auto simp: remove_act_def)
    next
      case (FilterMap fm)
      then have f: "fm \<noteq> []" "\<not> (length fm = 1 \<and> snd (hd fm))" "t \<notin> fst ` set fm"
        using c Some by auto
      then have "AList.delete t fm = fm" by simp
      then show ?thesis using Some FilterMap f
        by (auto simp: remove_act_def Let_def split: prod.splits)
    qed
  qed
  then have "remove_step t m d = m" by (auto simp: remove_step_act update_triv)
  then show ?thesis using skip by (simp add: add_step_def)
next
  case False
  show ?thesis
  proof (cases "map_of m d")
    case None
    then have k: "d \<notin> fst ` set m" by (rule map_of_None_keys)
    have "add_step t m (d, inc) = AList.update d (if inc then Bare t else FilterMap [(t, False)]) m"
      using None False by (auto simp: add_step_def)
    then show ?thesis using k t
      by (auto simp: remove_step_def update_conv' delete_update_same)
  next
    case (Some e)
    show ?thesis
    proof (cases e)
      case (Bare s)
      then have s: "s \<noteq> ''''" "s \<noteq> t" using c Some by auto
      then show ?thesis using Some Bare False
        by (auto simp: add_step_def remove_step_def update_conv' update_triv)
    next
      case (FilterMap fm)
      then have f: "fm \<noteq> []" "\<not> (length fm = 1 \<and> snd (hd fm))" "t \<notin> fst ` set fm"
        using c Some by auto
      have u: "AList.update t inc fm = fm @ [(t, inc)]" using f(3) by (rule update_absent)
      have dl: "AList.delete t (fm @ [(t, inc)]) = fm" using f(3) by (rule delete_append_last)
      have tr: "AList.update d (FilterMap fm) m = m" using Some FilterMap by (simp add: update_triv)
      have "add_step t m (d, inc) = AList.update d (FilterMap (fm @ [(t, inc)])) m"
        using Some FilterMap False u by (auto simp: add_step_def)
      then show ?thesis using f dl tr
        by (auto simp: remove_step_def update_conv' Let_def split: prod.splits)
    qed
  qed
qed

lemma remove_past_adds:
  "d \<notin> fst ` set ps \<Longrightarrow>
     remove_step t (foldl (add_step t) Y ps) d = foldl (add_step t) (remove_step t Y d) ps"
proof (induction ps arbitrary: Y)
  case Nil then show ?case by simp
next
  case (Cons p ps)
  obtain d' inc' where p: "p = (d', inc')" by (cases p)
  have "remove_step t (foldl (add_step t) (add_step t Y p) ps) d
        = foldl (add_step t) (remove_step t (add_step t Y p) d) ps"
    using Cons by simp
  also have "remove_step t (add_step t Y p) d = add_step t (remove_step t Y d) p"
    using Cons.prems p by (simp add: remove_add_commute)
  finally show ?case by simp
qed

lemma round_trip_list:
  assumes "t \<noteq> ''''" "distinct (map fst ps)"
    "\<forall>d \<in> fst ` set ps. case map_of m d of None \<Rightarrow> True | Some e \<Rightarrow> entry_wf e \<and> \<not> entry_has e t"
  shows "foldl (remove_step t) (foldl (add_step t) m ps) (map fst ps) = m"
  using assms(2,3)
proof (induction ps)
  case Nil then show ?case by simp
next
  case (Cons p ps)
  obtain d inc where p: "p = (d, inc)" by (cases p)
  have n: "d \<notin> fst ` set ps" using Cons.prems(1) p by auto
  have "remove_step t (foldl (add_step t) (add_step t m p) ps) d
        = foldl (add_step t) (remove_step t (add_step t m p) d) ps"
    using n by (rule remove_past_adds)
  also have "remove_step t (add_step t m p) d = m"
    using step_round_trip[OF assms(1), of m d inc] Cons.prems(2) p by simp
  finally have "foldl (remove_step t) (foldl (add_step t) m (p # ps)) (map fst (p # ps))
        = foldl (remove_step t) (foldl (add_step t) m ps) (map fst ps)"
    using p by simp
  also have "\<dots> = m" using Cons by simp
  finally show ?case .
qed

lemma wf_lookup: "FiltersByDomain_wf m \<Longrightarrow> map_of m d = Some e \<Longrightarrow> entry_wf e"
  unfolding FiltersByDomain_wf_def list_all_iff by (auto dest: map_of_SomeD)

lemma round_trip:
  assumes "t \<noteq> ''''" "distinct (map fst (domainsOrDefault ds))" "FiltersByDomain_wf m" "fresh t ds m"
  shows "FiltersByDomain_remove t ds (FiltersByDomain_add t ds m) = m"
proof -
  have "\<forall>d \<in> fst ` set (domainsOrDefault ds).
      case map_of m d of None \<Rightarrow> True | Some e \<Rightarrow> entry_wf e \<and> \<not> entry_has e t"
    using assms(3,4) unfolding fresh_def list_all_iff
    by (auto split: option.splits dest: wf_lookup)
  then show ?thesis
    unfolding FiltersByDomain_remove_def FiltersByDomain_add_def
    using assms(1,2) by (intro round_trip_list)
qed

lemma in_updateD: "x \<in> set (AList.update k v m) \<Longrightarrow> x = (k, v) \<or> x \<in> set m"
  using set_update_subset[of k v m] by auto

lemma keys_delete: "fst ` set (AList.delete t fm) = fst ` set fm - {t}"
  by (induction fm) auto

lemma singleton_hd: "length xs = 1 \<Longrightarrow> xs = [hd xs]"
  by (cases xs) auto

lemma texts_nonempty_update:
  "texts_nonempty m \<Longrightarrow> entry_pairs e \<noteq> [] \<Longrightarrow> '''' \<notin> fst ` set (entry_pairs e) \<Longrightarrow>
     texts_nonempty (AList.update d e m)"
  using set_update_subset[of d e m] unfolding texts_nonempty_def by fastforce

lemma texts_nonempty_delete: "texts_nonempty m \<Longrightarrow> texts_nonempty (AList.delete d m)"
  using set_delete_subset[of d m] unfolding texts_nonempty_def by fastforce

lemma texts_nonempty_lookup:
  "texts_nonempty m \<Longrightarrow> map_of m d = Some e \<Longrightarrow>
     entry_pairs e \<noteq> [] \<and> '''' \<notin> fst ` set (entry_pairs e)"
  unfolding texts_nonempty_def by (fastforce dest: map_of_SomeD)

lemma texts_nonempty_add_step:
  assumes "texts_nonempty m" "t \<noteq> ''''"
  shows "texts_nonempty (add_step t m p)"
proof -
  obtain d inc where p: "p = (d, inc)" by (cases p)
  have "a = Put e \<Longrightarrow> a = add_act t (d, inc) (map_of m d) \<Longrightarrow>
      entry_pairs e \<noteq> [] \<and> '''' \<notin> fst ` set (entry_pairs e)" for a e
    using assms texts_nonempty_lookup[OF assms(1), of d]
    by (auto simp: add_act_def split: if_splits option.splits entry.splits dest!: in_updateD)
  then show ?thesis using assms(1) unfolding p add_step_act
    by (cases "add_act t (d, inc) (map_of m d)")
       (auto intro: texts_nonempty_update texts_nonempty_delete)
qed

lemma remove_act_FilterMap_Put:
  assumes "remove_act t (Some (FilterMap fm)) = Put e"
  shows "AList.delete t fm \<noteq> [] \<and>
     (e = FilterMap (AList.delete t fm) \<or> (\<exists>l. e = Bare l \<and> AList.delete t fm = [(l, True)]))"
  using assms singleton_hd[of "AList.delete t fm"]
  by (auto simp: remove_act_def Let_def split: if_splits prod.splits)

lemma texts_nonempty_remove_step:
  assumes "texts_nonempty m"
  shows "texts_nonempty (remove_step t m d)"
proof -
  have "entry_pairs e \<noteq> [] \<and> '''' \<notin> fst ` set (entry_pairs e)"
    if "remove_act t (map_of m d) = Put e" for e
  proof (cases "map_of m d")
    case None then show ?thesis using that by (simp add: remove_act_def)
  next
    case (Some e0)
    note L = texts_nonempty_lookup[OF assms Some]
    show ?thesis
    proof (cases e0)
      case (Bare s) then show ?thesis using that Some by (auto simp: remove_act_def split: if_splits)
    next
      case (FilterMap fm)
      define fm' where "fm' = AList.delete t fm"
      have sub: "fst ` set fm' \<subseteq> fst ` set fm" unfolding fm'_def by (simp add: keys_delete)
      have n: "'''' \<notin> fst ` set fm'" using L FilterMap sub by auto
      have "fm' \<noteq> [] \<and> (e = FilterMap fm' \<or> (\<exists>l. e = Bare l \<and> fm' = [(l, True)]))"
        using remove_act_FilterMap_Put[of t fm e] that Some FilterMap fm'_def by simp
      then show ?thesis using n by auto
    qed
  qed
  then show ?thesis using assms unfolding remove_step_act
    by (cases "remove_act t (map_of m d)")
       (auto intro: texts_nonempty_update texts_nonempty_delete)
qed

lemma texts_at_add_step:
  "texts_at (add_step t m (d, inc)) d' \<subseteq> texts_at m d' \<union> (if d' = d then {t} else {})"
proof (cases "d' = d")
  case False
  then show ?thesis by (simp add: texts_at_def add_step_act map_of_apply_act_other)
next
  case True
  show ?thesis
  proof (cases "add_act t (d, inc) (map_of m d)")
    case Keep then show ?thesis using True by (auto simp: add_step_act)
  next
    case Del then show ?thesis using True by (simp add: add_step_act texts_at_def delete_conv')
  next
    case (Put e)
    then have "fst ` set (entry_pairs e) \<subseteq> texts_at m d \<union> {t}"
      by (auto simp: add_act_def texts_at_def split: if_splits option.splits entry.splits dest!: in_updateD)
    then show ?thesis using True Put by (simp add: add_step_act texts_at_def update_conv')
  qed
qed

lemma texts_at_remove_step:
  assumes "texts_nonempty m"
  shows "texts_at (remove_step t m d) d' \<subseteq> texts_at m d' - (if d' = d then {t} else {})"
proof (cases "d' = d")
  case False
  then show ?thesis by (simp add: texts_at_def remove_step_act map_of_apply_act_other)
next
  case True
  show ?thesis
  proof (cases "map_of m d")
    case None then show ?thesis using True by (simp add: remove_step_act remove_act_def texts_at_def)
  next
    case (Some e0)
    note L = texts_nonempty_lookup[OF assms Some]
    show ?thesis
    proof (cases e0)
      case (Bare s)
      then show ?thesis using True Some L
        by (auto simp: remove_step_def texts_at_def delete_conv')
    next
      case (FilterMap fm)
      define fm' where "fm' = AList.delete t fm"
      have k: "fst ` set fm' = fst ` set fm - {t}" unfolding fm'_def by (rule keys_delete)
      show ?thesis
      proof (cases "remove_act t (map_of m d)")
        case Keep then show ?thesis using Some FilterMap
          by (auto simp: remove_act_def Let_def split: if_splits prod.splits)
      next
        case Del then show ?thesis using True by (simp add: remove_step_act texts_at_def delete_conv')
      next
        case (Put e)
        then have "e = FilterMap fm' \<or> (\<exists>l. e = Bare l \<and> fm' = [(l, True)])"
          using remove_act_FilterMap_Put[of t fm e] Some FilterMap fm'_def by simp
        then have "fst ` set (entry_pairs e) = fst ` set fm'" by auto
        then show ?thesis using True Put Some FilterMap k
          by (simp add: remove_step_act texts_at_def update_conv')
      qed
    qed
  qed
qed

lemma empty_texts_at:
  assumes "texts_nonempty m" "\<forall>d. texts_at m d = {}"
  shows "m = []"
proof (cases m)
  case Nil then show ?thesis .
next
  case (Cons p ps)
  obtain d e where p: "p = (d, e)" by (cases p)
  have "map_of m d = Some e" using Cons p by simp
  moreover have "entry_pairs e \<noteq> []" using assms(1) Cons p by (simp add: texts_nonempty_def)
  ultimately have "texts_at m d \<noteq> {}" by (simp add: texts_at_def)
  then show ?thesis using assms(2) by simp
qed


lemma texts_nonempty_add:
  "texts_nonempty m \<Longrightarrow> t \<noteq> [] \<Longrightarrow> texts_nonempty (FiltersByDomain_add t ds m)"
proof -
  have "texts_nonempty m' \<Longrightarrow> t \<noteq> [] \<Longrightarrow> texts_nonempty (foldl (add_step t) m' ps)" for m' ps
    by (induction ps arbitrary: m') (auto intro: texts_nonempty_add_step)
  then show "texts_nonempty m \<Longrightarrow> t \<noteq> [] \<Longrightarrow> texts_nonempty (FiltersByDomain_add t ds m)"
    by (simp add: FiltersByDomain_add_def)
qed

lemma texts_nonempty_remove:
  "texts_nonempty m \<Longrightarrow> texts_nonempty (FiltersByDomain_remove t ds m)"
proof -
  have "texts_nonempty m' \<Longrightarrow> texts_nonempty (foldl (remove_step t) m' ks)" for m' ks
    by (induction ks arbitrary: m') (auto intro: texts_nonempty_remove_step)
  then show "texts_nonempty m \<Longrightarrow> texts_nonempty (FiltersByDomain_remove t ds m)"
    by (simp add: FiltersByDomain_remove_def)
qed

lemma texts_at_add:
  "texts_at (FiltersByDomain_add t ds m) d
     \<subseteq> texts_at m d \<union> (if d \<in> fst ` set (domainsOrDefault ds) then {t} else {})"
proof -
  have "texts_at (foldl (add_step t) m' ps) d
     \<subseteq> texts_at m' d \<union> (if d \<in> fst ` set ps then {t} else {})" for m' ps
  proof (induction ps arbitrary: m')
    case Nil then show ?case by simp
  next
    case (Cons p ps)
    obtain d0 inc where p: "p = (d0, inc)" by (cases p)
    have "texts_at (foldl (add_step t) (add_step t m' p) ps) d
       \<subseteq> texts_at (add_step t m' p) d \<union> (if d \<in> fst ` set ps then {t} else {})"
      by (rule Cons.IH)
    moreover have "texts_at (add_step t m' p) d \<subseteq> texts_at m' d \<union> (if d = d0 then {t} else {})"
      unfolding p by (rule texts_at_add_step)
    ultimately show ?case using p by (auto split: if_splits)
  qed
  then show ?thesis by (simp add: FiltersByDomain_add_def)
qed

lemma texts_at_remove:
  assumes "texts_nonempty m"
  shows "texts_at (FiltersByDomain_remove t ds m) d
     \<subseteq> texts_at m d - (if d \<in> fst ` set (domainsOrDefault ds) then {t} else {})"
proof -
  have "texts_nonempty m' \<Longrightarrow> texts_at (foldl (remove_step t) m' ks) d
     \<subseteq> texts_at m' d - (if d \<in> set ks then {t} else {})" for m' ks
  proof (induction ks arbitrary: m')
    case Nil then show ?case by simp
  next
    case (Cons k ks)
    have n: "texts_nonempty (remove_step t m' k)" using Cons.prems by (rule texts_nonempty_remove_step)
    have "texts_at (foldl (remove_step t) (remove_step t m' k) ks) d
       \<subseteq> texts_at (remove_step t m' k) d - (if d \<in> set ks then {t} else {})"
      using n by (rule Cons.IH)
    moreover have "texts_at (remove_step t m' k) d \<subseteq> texts_at m' d - (if d = k then {t} else {})"
      using Cons.prems by (rule texts_at_remove_step)
    ultimately show ?case by (auto split: if_splits)
  qed
  from this[OF assms, of "map fst (domainsOrDefault ds)"] show ?thesis
    by (simp add: FiltersByDomain_remove_def)
qed

lemma covers_snoc:
  "covers (cs @ [(t, ds)]) d = covers cs d \<union> (if d \<in> fst ` set (domainsOrDefault ds) then {t} else {})"
  by (auto simp: covers_def)

lemma add_all_props:
  assumes "texts_nonempty m" "\<forall>(t, ds) \<in> set calls. t \<noteq> []"
  shows "texts_nonempty (add_all calls m) \<and> (\<forall>d. texts_at (add_all calls m) d \<subseteq> texts_at m d \<union> covers calls d)"
  using assms
proof (induction calls rule: rev_induct)
  case Nil then show ?case by (simp add: add_all_def covers_def)
next
  case (snoc c cs)
  obtain t ds where c: "c = (t, ds)" by (cases c)
  have IH: "texts_nonempty (add_all cs m)" "\<And>d. texts_at (add_all cs m) d \<subseteq> texts_at m d \<union> covers cs d"
    using snoc by auto
  have s: "add_all (cs @ [c]) m = FiltersByDomain_add t ds (add_all cs m)"
    by (simp add: add_all_def c)
  have t: "t \<noteq> []" using snoc.prems(2) c by auto
  have "texts_at (add_all (cs @ [c]) m) d \<subseteq> texts_at m d \<union> covers (cs @ [c]) d" for d
  proof -
    have "texts_at (FiltersByDomain_add t ds (add_all cs m)) d
       \<subseteq> (texts_at m d \<union> covers cs d) \<union> (if d \<in> fst ` set (domainsOrDefault ds) then {t} else {})"
      using texts_at_add[of t ds "add_all cs m" d] IH(2)[of d] by blast
    then show ?thesis unfolding s unfolding c covers_snoc by blast
  qed
  then show ?case using IH(1) t s by (simp add: texts_nonempty_add)
qed

lemma remove_all_props:
  assumes "texts_nonempty m"
  shows "texts_nonempty (remove_all calls m) \<and> (\<forall>d. texts_at (remove_all calls m) d \<subseteq> texts_at m d - covers calls d)"
proof (induction calls rule: rev_induct)
  case Nil then show ?case using assms by (simp add: remove_all_def covers_def)
next
  case (snoc c cs)
  obtain t ds where c: "c = (t, ds)" by (cases c)
  have IH: "texts_nonempty (remove_all cs m)" "\<And>d. texts_at (remove_all cs m) d \<subseteq> texts_at m d - covers cs d"
    using snoc by auto
  have s: "remove_all (cs @ [c]) m = FiltersByDomain_remove t ds (remove_all cs m)"
    by (simp add: remove_all_def c)
  have "texts_at (remove_all (cs @ [c]) m) d \<subseteq> texts_at m d - covers (cs @ [c]) d" for d
  proof -
    have "texts_at (FiltersByDomain_remove t ds (remove_all cs m)) d
       \<subseteq> (texts_at m d - covers cs d) - (if d \<in> fst ` set (domainsOrDefault ds) then {t} else {})"
      using texts_at_remove[OF IH(1), of t ds d] IH(2)[of d] by blast
    then show ?thesis unfolding s unfolding c covers_snoc by blast
  qed
  then show ?case using IH(1) s by (simp add: texts_nonempty_remove)
qed

lemma adds_then_removes:
  assumes "\<forall>(t, ds) \<in> set adds. t \<noteq> []" "set adds \<subseteq> set removes"
  shows "remove_all removes (add_all adds FiltersByDomain_empty) = FiltersByDomain_empty"
proof -
  have e: "texts_nonempty FiltersByDomain_empty" by (simp add: texts_nonempty_def FiltersByDomain_empty_def)
  have e2: "texts_at FiltersByDomain_empty d = {}" for d by (simp add: texts_at_def FiltersByDomain_empty_def)
  note A = add_all_props[OF e assms(1)]
  note R = remove_all_props[of "add_all adds FiltersByDomain_empty" removes]
  have c: "covers adds d \<subseteq> covers removes d" for d using assms(2) by (auto simp: covers_def)
  have "texts_at (remove_all removes (add_all adds FiltersByDomain_empty)) d = {}" for d
    using A R c[of d] e2 by fastforce
  then have "remove_all removes (add_all adds FiltersByDomain_empty) = []"
    using A R by (intro empty_texts_at) auto
  then show ?thesis by (simp add: FiltersByDomain_empty_def)
qed

lemma map_of_add_steps_other:
  "d \<notin> fst ` set ps \<Longrightarrow> map_of (foldl (add_step t) m ps) d = map_of m d"
proof (induction ps arbitrary: m)
  case Nil then show ?case by simp
next
  case (Cons p ps)
  obtain d' inc' where p: "p = (d', inc')" by (cases p)
  then show ?case using Cons by (simp add: add_step_act map_of_apply_act_other)
qed

lemma add_step_reflects:
  assumes "\<not> (\<not> inc \<and> d = [])"
  shows "entry_lookup (map_of (add_step t m (d, inc)) d) t
       = Some (if map_of m d = Some (Bare t) \<and> t \<noteq> [] then True else inc)"
  using assms
  by (cases "map_of m d")
     (auto simp: add_step_def update_conv' split: entry.splits)

lemma add_reflects:
  assumes "distinct (map fst (domainsOrDefault ds))" "(d, inc) \<in> set (domainsOrDefault ds)"
    "\<not> (\<not> inc \<and> d = [])"
  shows "entry_lookup (FiltersByDomain_get (FiltersByDomain_add t ds m) d) t
       = Some (if FiltersByDomain_get m d = Some (Bare t) \<and> t \<noteq> [] then True else inc)"
proof -
  obtain ps qs where s: "domainsOrDefault ds = ps @ (d, inc) # qs"
    using assms(2) by (auto dest: split_list)
  have n: "d \<notin> fst ` set ps" "d \<notin> fst ` set qs" using assms(1) s by auto
  have "map_of (FiltersByDomain_add t ds m) d = map_of (add_step t (foldl (add_step t) m ps) (d, inc)) d"
    using n(2) by (simp add: FiltersByDomain_add_def s map_of_add_steps_other)
  moreover have "map_of (foldl (add_step t) m ps) d = map_of m d"
    using n(1) by (rule map_of_add_steps_other)
  ultimately show ?thesis
    using add_step_reflects[OF assms(3), of t "foldl (add_step t) m ps"]
    by (simp add: FiltersByDomain_get_def)
qed

text \<open>
  C4 (as amended). (1) Adding any sequence of non-empty filter texts to the empty index and
  then removing with a sequence of calls that contains every add's arguments leaves the
  empty index. (2) On a well-formed index that does not hold the non-empty text under any
  of the filter's domains, remove right after add with the same arguments gives back the
  index exactly, order of the domains included. (3) After add, the entry of every domain
  of the filter other than the skipped pair of the empty domain and false holds the text,
  with the include flag of the pair, or with true when the entry was already the bare text.
\<close>

theorem FiltersByDomain_round_trip:
  "((\<forall>(t, ds) \<in> set adds. t \<noteq> '''') \<and> set adds \<subseteq> set removes \<longrightarrow>
      remove_all removes (add_all adds FiltersByDomain_empty) = FiltersByDomain_empty)
   \<and> (t \<noteq> '''' \<and> distinct (map fst (domainsOrDefault ds)) \<and> FiltersByDomain_wf m \<and> fresh t ds m \<longrightarrow>
      FiltersByDomain_remove t ds (FiltersByDomain_add t ds m) = m)
   \<and> (distinct (map fst (domainsOrDefault ds)) \<and> (d, inc) \<in> set (domainsOrDefault ds)
        \<and> \<not> (\<not> inc \<and> d = '''') \<longrightarrow>
      entry_lookup (FiltersByDomain_get (FiltersByDomain_add t ds m) d) t
        = Some (if FiltersByDomain_get m d = Some (Bare t) \<and> t \<noteq> '''' then True else inc))"
  using adds_then_removes[of adds removes] round_trip[of t ds m] add_reflects[of ds d inc t m]
  by blast

theorem FiltersByDomain_round_trip_witness:
  "(set [(''f1'', Some [(''example.com'', True), (''www.example.com'', False)]),
            (''f2'', Some [(''example.com'', True)])]
       \<subseteq> set [(''f1'', Some [(''example.com'', True), (''www.example.com'', False)]),
               (''f2'', Some [(''example.com'', True)])]
    \<and> remove_all [(''f1'', Some [(''example.com'', True), (''www.example.com'', False)]),
                   (''f2'', Some [(''example.com'', True)])]
         (add_all [(''f1'', Some [(''example.com'', True), (''www.example.com'', False)]),
                   (''f2'', Some [(''example.com'', True)])] FiltersByDomain_empty)
       = FiltersByDomain_empty)
   \<and> (''f3'' \<noteq> '''' \<and> distinct (map fst (domainsOrDefault (Some [(''images.example.com'', False), ('''', True)])))
      \<and> FiltersByDomain_wf [(''example.com'', FilterMap [(''f1'', True), (''f2'', True)]),
                             (''www.example.com'', FilterMap [(''f1'', False)])]
      \<and> fresh ''f3'' (Some [(''images.example.com'', False), ('''', True)])
           [(''example.com'', FilterMap [(''f1'', True), (''f2'', True)]),
            (''www.example.com'', FilterMap [(''f1'', False)])]
      \<and> FiltersByDomain_remove ''f3'' (Some [(''images.example.com'', False), ('''', True)])
          (FiltersByDomain_add ''f3'' (Some [(''images.example.com'', False), ('''', True)])
             [(''example.com'', FilterMap [(''f1'', True), (''f2'', True)]),
              (''www.example.com'', FilterMap [(''f1'', False)])])
        = [(''example.com'', FilterMap [(''f1'', True), (''f2'', True)]),
           (''www.example.com'', FilterMap [(''f1'', False)])])
   \<and> ((''images.example.com'', False) \<in> set (domainsOrDefault (Some [(''images.example.com'', False), ('''', True)]))
      \<and> entry_lookup (FiltersByDomain_get
            (FiltersByDomain_add ''f3'' (Some [(''images.example.com'', False), ('''', True)])
               [(''example.com'', FilterMap [(''f1'', True), (''f2'', True)]),
                (''www.example.com'', FilterMap [(''f1'', False)])]) ''images.example.com'') ''f3''
         = Some False)"
proof -
  have h1: "(\<forall>(t, ds) \<in> set [(''f1'', Some [(''example.com'', True), (''www.example.com'', False)]),
                       (''f2'', Some [(''example.com'', True)])]. t \<noteq> '''')"
    by simp
  have h2: "distinct (map fst (domainsOrDefault (Some [(''images.example.com'', False), ('''', True)])))"
    by (simp add: domainsOrDefault_def)
  have h3: "FiltersByDomain_wf [(''example.com'', FilterMap [(''f1'', True), (''f2'', True)]),
                             (''www.example.com'', FilterMap [(''f1'', False)])]"
    by (simp add: FiltersByDomain_wf_def)
  have h4: "fresh ''f3'' (Some [(''images.example.com'', False), ('''', True)])
           [(''example.com'', FilterMap [(''f1'', True), (''f2'', True)]),
            (''www.example.com'', FilterMap [(''f1'', False)])]"
    by (simp add: fresh_def domainsOrDefault_def)
  have h5: "(''images.example.com'', False) \<in> set (domainsOrDefault (Some [(''images.example.com'', False), ('''', True)]))"
    by (simp add: domainsOrDefault_def)
  have h6: "FiltersByDomain_get [(''example.com'', FilterMap [(''f1'', True), (''f2'', True)]),
                (''www.example.com'', FilterMap [(''f1'', False)])] ''images.example.com'' = None"
    by (simp add: FiltersByDomain_get_def)
  show ?thesis
    using h1 h2 h3 h4 h5 h6
      FiltersByDomain_round_trip[of
        "[(''f1'', Some [(''example.com'', True), (''www.example.com'', False)]),
          (''f2'', Some [(''example.com'', True)])]"
        "[(''f1'', Some [(''example.com'', True), (''www.example.com'', False)]),
          (''f2'', Some [(''example.com'', True)])]"
        "''f3''" "Some [(''images.example.com'', False), ('''', True)]"
        "[(''example.com'', FilterMap [(''f1'', True), (''f2'', True)]),
          (''www.example.com'', FilterMap [(''f1'', False)])]"
        "''images.example.com''" False]
    by simp
qed

text \<open>
  The claim as stated fails: when the index already holds the text, add changes nothing
  and the following remove deletes the entry, so the pre-add shape is not restored.
\<close>

theorem FiltersByDomain_round_trip_counterexample:
  "FiltersByDomain_remove ''f'' (Some [(''a.com'', True)])
     (FiltersByDomain_add ''f'' (Some [(''a.com'', True)])
        (FiltersByDomain_add ''f'' (Some [(''a.com'', True)]) FiltersByDomain_empty))
   \<noteq> FiltersByDomain_add ''f'' (Some [(''a.com'', True)]) FiltersByDomain_empty"
  by (simp add: FiltersByDomain_remove_def FiltersByDomain_add_def add_step_def remove_step_def
       domainsOrDefault_def FiltersByDomain_empty_def)

subsection \<open>Matcher: the filter counts\<close>

lemma finite_keyword_set: "finite {t. map_of l t = Some k}"
proof -
  have "{t. map_of l t = Some k} \<subseteq> dom (map_of l)" by auto
  then show ?thesis using finite_dom_map_of finite_subset by blast
qed

lemma clearDerived_core [simp]:
  "keywordByFilter (clearDerived m) = keywordByFilter m"
  "filterCountByKeyword (clearDerived m) = filterCountByKeyword m"
  by (simp_all add: clearDerived_def)

lemma filtersWithKeyword_clearDerived [simp]:
  "filtersWithKeyword (clearDerived m) k = filtersWithKeyword m k"
  by (simp add: filtersWithKeyword_def)

lemma counts_exact_clearDerived [simp]: "counts_exact (clearDerived m) = counts_exact m"
  by (simp add: counts_exact_def)

lemma counts_exact_add:
  assumes "counts_exact m"
  shows "counts_exact (Matcher_add m f)"
proof (cases "map_of (keywordByFilter m) (filter_text f) \<noteq> None")
  case True
  then show ?thesis using assms by (simp add: Matcher_add_def)
next
  case False
  define t where "t = filter_text f"
  define k0 where "k0 = Matcher_findKeyword m f"
  define m1 where "m1 = m\<lparr>keywordByFilter := AList.update t k0 (keywordByFilter m)\<rparr>"
  define m2 where "m2 = m1\<lparr>filterCountByKeyword := AList.update k0 (countOf m1 k0 + 1) (filterCountByKeyword m1)\<rparr>"
  have r: "Matcher_add m f = clearDerived m2"
    using False by (simp add: Matcher_add_def Let_def m2_def m1_def k0_def t_def)
  have n: "map_of (keywordByFilter m) t = None" using False t_def by simp
  have S: "{x. map_of (keywordByFilter m2) x = Some k} =
        (if k = k0 then insert t {x. map_of (keywordByFilter m) x = Some k}
         else {x. map_of (keywordByFilter m) x = Some k})" for k
    using n by (auto simp: m2_def m1_def update_conv')
  have tn: "t \<notin> {x. map_of (keywordByFilter m) x = Some k}" for k using n by simp
  have c: "filtersWithKeyword m2 k = (if k = k0 then Suc (filtersWithKeyword m k) else filtersWithKeyword m k)" for k
    unfolding filtersWithKeyword_def S using tn[of k] finite_keyword_set[of "keywordByFilter m" k]
    by (auto simp: card_insert_disjoint)
  have c0: "countOf m1 k0 = filtersWithKeyword m k0"
    using assms by (simp add: countOf_def m1_def counts_exact_def)
  have "counts_exact m2"
    unfolding counts_exact_def
  proof
    fix k
    show "map_of (filterCountByKeyword m2) k =
        (if filtersWithKeyword m2 k = 0 then None else Some (filtersWithKeyword m2 k))"
      using assms c[of k] c0 by (simp add: m2_def m1_def update_conv' counts_exact_def)
  qed
  then show ?thesis using r by simp
qed

lemma counts_exact_remove:
  assumes "counts_exact m"
  shows "counts_exact (Matcher_remove m f)"
proof (cases "map_of (keywordByFilter m) (filter_text f)")
  case None
  then show ?thesis using assms by (simp add: Matcher_remove_def)
next
  case (Some k0)
  define t where "t = filter_text f"
  define m1 where "m1 = m\<lparr>keywordByFilter := AList.delete t (keywordByFilter m)\<rparr>"
  define cnt where "cnt = (case map_of (filterCountByKeyword m1) k0 of None \<Rightarrow> 0 | Some c \<Rightarrow> c)"
  define m2 where "m2 = (if cnt > 1
                    then m1\<lparr>filterCountByKeyword := AList.update k0 (cnt - 1) (filterCountByKeyword m1)\<rparr>
                    else m1\<lparr>filterCountByKeyword := AList.delete k0 (filterCountByKeyword m1)\<rparr>)"
  have r: "Matcher_remove m f = clearDerived m2"
    using Some by (simp add: Matcher_remove_def Let_def m2_def m1_def cnt_def t_def)
  have i: "map_of (keywordByFilter m) t = Some k0" using Some t_def by simp
  have S: "{x. map_of (keywordByFilter m2) x = Some k} = {x. map_of (keywordByFilter m) x = Some k} - {t}" for k
    by (auto simp: m2_def m1_def delete_conv')
  have c: "filtersWithKeyword m2 k = (if k = k0 then filtersWithKeyword m k - 1 else filtersWithKeyword m k)" for k
    unfolding filtersWithKeyword_def S using i finite_keyword_set[of "keywordByFilter m" k]
    by (auto simp: card_Diff_singleton_if)
  have pos: "filtersWithKeyword m k0 > 0"
    unfolding filtersWithKeyword_def using i finite_keyword_set[of "keywordByFilter m" k0]
    by (auto simp: card_gt_0_iff)
  have c0: "cnt = filtersWithKeyword m k0"
    using assms pos by (simp add: cnt_def m1_def counts_exact_def)
  have "counts_exact m2"
    unfolding counts_exact_def
  proof
    fix k
    show "map_of (filterCountByKeyword m2) k =
        (if filtersWithKeyword m2 k = 0 then None else Some (filtersWithKeyword m2 k))"
      using assms c[of k] c0 pos
      by (auto simp: m2_def m1_def update_conv' delete_conv' counts_exact_def)
  qed
  then show ?thesis using r by simp
qed

lemma counts_exact_clear: "counts_exact (Matcher_clear m)"
  by (simp add: counts_exact_def Matcher_clear_def filtersWithKeyword_def)

lemma counts_exact_run: "counts_exact (Matcher_run ops)"
proof (induction ops rule: rev_induct)
  case Nil
  then show ?case by (simp add: Matcher_run_def counts_exact_def Matcher_new_def filtersWithKeyword_def)
next
  case (snoc x xs)
  then show ?case
    by (cases x) (simp_all add: Matcher_run_def counts_exact_add counts_exact_remove counts_exact_clear)
qed

text \<open>
  C10. After every sequence of add, remove and clear operations on a new Matcher, the count
  stored for a keyword is the number of filter texts that \<open>_keywordByFilter\<close> maps to
  it, the keyword has no count exactly when that number is zero, and the counts that
  \<open>findKeyword\<close> compares are these numbers.
\<close>

theorem Matcher_filterCount_exact:
  "map_of (filterCountByKeyword (Matcher_run ops)) k =
     (if filtersWithKeyword (Matcher_run ops) k = 0 then None
      else Some (filtersWithKeyword (Matcher_run ops) k))
   \<and> countOf (Matcher_run ops) k = filtersWithKeyword (Matcher_run ops) k
   \<and> Matcher_findKeyword (Matcher_run ops) f
       = findKeyword_with (filtersWithKeyword (Matcher_run ops)) f"
proof -
  have e: "counts_exact (Matcher_run ops)" by (rule counts_exact_run)
  have c: "countOf (Matcher_run ops) = filtersWithKeyword (Matcher_run ops)"
    using e by (auto simp: countOf_def counts_exact_def)
  show ?thesis using e c by (simp add: counts_exact_def Matcher_findKeyword_def)
qed

subsection \<open>URL filters: the stored pattern\<close>

lemma lower_range:
  assumes "map_of (zip upperLetters lowerLetters) c = Some l"
  shows "l \<in> set lowerLetters"
  using assms by (meson map_of_SomeD set_zip_rightD)

lemma upper_range:
  assumes "map_of (zip upperLetters lowerLetters) c = Some l"
  shows "c \<in> set upperLetters"
  using assms by (meson map_of_SomeD set_zip_leftD)

lemma lower_not_upper:
  assumes "l \<in> set lowerLetters"
  shows "map_of (zip upperLetters lowerLetters) l = None"
proof -
  have "l \<notin> set upperLetters" using assms by (auto simp: upperLetters_def lowerLetters_def)
  then have "l \<notin> fst ` set (zip upperLetters lowerLetters)"
    by (auto dest: set_zip_leftD)
  then show ?thesis unfolding map_of_eq_None_iff .
qed

lemma toLowerChar_idem: "toLowerChar (toLowerChar c) = toLowerChar c"
proof (cases "map_of (zip upperLetters lowerLetters) c")
  case None
  then show ?thesis unfolding toLowerChar_def by (simp only: option.case)
next
  case (Some l)
  have "map_of (zip upperLetters lowerLetters) l = None"
    using lower_not_upper[OF lower_range[OF Some]] .
  then show ?thesis unfolding toLowerChar_def using Some by (simp only: option.case)
qed

lemma toLowerChar_fixed:
  assumes "d \<notin> set upperLetters" "d \<notin> set lowerLetters"
  shows "toLowerChar c = d \<longleftrightarrow> c = d"
proof (cases "map_of (zip upperLetters lowerLetters) c")
  case None
  then show ?thesis unfolding toLowerChar_def by (simp only: option.case)
next
  case (Some l)
  have l: "l \<noteq> d" using lower_range[OF Some] assms(2) by auto
  have c: "c \<noteq> d" using upper_range[OF Some] assms(1) by auto
  show ?thesis unfolding toLowerChar_def using Some l c by (simp only: option.case)
qed

lemma toLowerChar_star: "toLowerChar c = CHR ''*'' \<longleftrightarrow> c = CHR ''*''"
  by (rule toLowerChar_fixed) (simp_all add: upperLetters_def lowerLetters_def)

lemma toLowerChar_slash: "toLowerChar c = CHR ''/'' \<longleftrightarrow> c = CHR ''/''"
  by (rule toLowerChar_fixed) (simp_all add: upperLetters_def lowerLetters_def)

lemma toLowerCase_idem: "toLowerCase (toLowerCase s) = toLowerCase s"
  by (simp add: toLowerCase_def toLowerChar_idem)

lemma toLowerCase_dropWhile_star:
  "toLowerCase (dropWhile (\<lambda>c. c = CHR ''*'') s) = dropWhile (\<lambda>c. c = CHR ''*'') (toLowerCase s)"
proof (induction s)
  case Nil then show ?case by (simp add: toLowerCase_def)
next
  case (Cons c s)
  then show ?case using toLowerChar_star[of c] by (simp add: toLowerCase_def)
qed

lemma toLowerCase_rev: "toLowerCase (rev s) = rev (toLowerCase s)"
  by (simp add: toLowerCase_def rev_map)

lemma toLowerCase_stripWildcards:
  "toLowerCase (stripWildcards s) = stripWildcards (toLowerCase s)"
  by (simp add: stripWildcards_def toLowerCase_rev toLowerCase_dropWhile_star)

lemma isRegexpLiteral_toLowerCase: "isRegexpLiteral (toLowerCase s) = isRegexpLiteral s"
proof (cases "s = []")
  case True
  then show ?thesis by (simp add: toLowerCase_def)
next
  case False
  then show ?thesis
    using toLowerChar_slash[of "hd s"] toLowerChar_slash[of "last s"]
    by (simp add: isRegexpLiteral_def toLowerCase_def hd_map last_map)
qed

lemma isRegexpLiteral_normalizedSource:
  "isRegexpLiteral (normalizedSource mc src) = isRegexpLiteral src"
  by (simp add: normalizedSource_def isRegexpLiteral_toLowerCase)

lemma normalizedSource_idem: "normalizedSource mc (normalizedSource mc src) = normalizedSource mc src"
  by (simp add: normalizedSource_def toLowerCase_idem)

lemma dropWhile_idem: "dropWhile P (dropWhile P s) = dropWhile P s"
  by (induction s) auto

lemma hd_dropWhile_star: "dropWhile (\<lambda>c. c = CHR ''*'') s \<noteq> [] \<Longrightarrow> hd (dropWhile (\<lambda>c. c = CHR ''*'') s) \<noteq> CHR ''*''"
  using hd_dropWhile[of "\<lambda>c. c = CHR ''*''" s] by simp

lemma stripWildcards_ends:
  "stripWildcards s = [] \<or> (hd (stripWildcards s) \<noteq> CHR ''*'' \<and> last (stripWildcards s) \<noteq> CHR ''*'')"
proof (cases "stripWildcards s = []")
  case True then show ?thesis by simp
next
  case False
  define a where "a = dropWhile (\<lambda>c. c = CHR ''*'') s"
  define b where "b = dropWhile (\<lambda>c. c = CHR ''*'') (rev a)"
  have s: "stripWildcards s = rev b" by (simp add: stripWildcards_def a_def b_def)
  have bn: "b \<noteq> []" using False s by simp
  have l: "last (rev b) \<noteq> CHR ''*''" using bn hd_dropWhile_star[of "rev a"] b_def by (simp add: last_rev)
  have "\<exists>pre. rev a = pre @ b" unfolding b_def by (metis takeWhile_dropWhile_id)
  then obtain pre where "rev a = pre @ b" by blast
  then have "a = rev b @ rev pre" by (metis rev_append rev_rev_ident)
  then have "hd a = hd (rev b)" using bn by simp
  moreover have "a \<noteq> []" using \<open>a = rev b @ rev pre\<close> bn by simp
  ultimately have "hd (rev b) \<noteq> CHR ''*''" using hd_dropWhile_star[of s] a_def by simp
  then show ?thesis using l s by simp
qed

lemma dropWhile_id_hd: "s = [] \<or> \<not> P (hd s) \<Longrightarrow> dropWhile P s = s"
  by (cases s) auto

lemma stripWildcards_fixed:
  assumes "p = [] \<or> (hd p \<noteq> CHR ''*'' \<and> last p \<noteq> CHR ''*'')"
  shows "stripWildcards p = p"
proof -
  have 1: "dropWhile (\<lambda>c. c = CHR ''*'') p = p" using assms by (intro dropWhile_id_hd) auto
  have 2: "dropWhile (\<lambda>c. c = CHR ''*'') (rev p) = rev p"
    using assms by (intro dropWhile_id_hd) (auto simp: hd_rev)
  show ?thesis by (simp add: stripWildcards_def 1 2)
qed

lemma takeWhile_star: "takeWhile (\<lambda>c. c = CHR ''*'') s = replicate (length (takeWhile (\<lambda>c. c = CHR ''*'') s)) (CHR ''*'')"
  by (induction s) auto

lemma stripWildcards_decomposition:
  "\<exists>i j. s = replicate i (CHR ''*'') @ stripWildcards s @ replicate j (CHR ''*'')"
proof -
  let ?P = "\<lambda>c. c = CHR ''*''"
  define a where "a = dropWhile ?P s"
  have 1: "s = takeWhile ?P s @ a" by (simp add: a_def)
  have "rev a = takeWhile ?P (rev a) @ dropWhile ?P (rev a)" by simp
  then have "a = rev (dropWhile ?P (rev a)) @ rev (takeWhile ?P (rev a))"
    by (metis rev_append rev_rev_ident)
  moreover have "stripWildcards s = rev (dropWhile ?P (rev a))"
    by (simp add: stripWildcards_def a_def)
  ultimately have 2: "a = stripWildcards s @ rev (takeWhile ?P (rev a))" by simp
  have 3: "rev (takeWhile ?P (rev a)) = replicate (length (takeWhile ?P (rev a))) (CHR ''*'')"
    by (subst takeWhile_star) simp
  have "s = replicate (length (takeWhile ?P s)) (CHR ''*'') @ stripWildcards s
              @ replicate (length (takeWhile ?P (rev a))) (CHR ''*'')"
    using 1 2 3 takeWhile_star[of s] by metis
  then show ?thesis by blast
qed

lemma dropWhile_stars:
  "dropWhile (\<lambda>c. c = CHR ''*'') (replicate i (CHR ''*'') @ s) = dropWhile (\<lambda>c. c = CHR ''*'') s"
  by (induction i) simp_all

lemma stripWildcards_stars:
  assumes "p = [] \<or> (hd p \<noteq> CHR ''*'' \<and> last p \<noteq> CHR ''*'')"
  shows "stripWildcards (replicate i (CHR ''*'') @ p @ replicate j (CHR ''*'')) = p"
proof -
  let ?P = "\<lambda>c. c = CHR ''*''"
  define st where "st = replicate j (CHR ''*'')"
  have rs: "rev st = st" by (simp add: st_def)
  have ds: "dropWhile ?P (st @ s) = dropWhile ?P s" for s
    unfolding st_def by (rule dropWhile_stars)
  have 1: "dropWhile ?P (replicate i (CHR ''*'') @ p @ st) = dropWhile ?P (p @ st)"
    by (rule dropWhile_stars)
  show ?thesis
  proof (cases "p = []")
    case True
    have "dropWhile ?P (st @ []) = dropWhile ?P []" by (rule ds)
    then have a: "dropWhile ?P st = []" by simp
    have "dropWhile ?P (replicate i (CHR ''*'') @ st) = dropWhile ?P st"
      by (rule dropWhile_stars)
    then have b: "dropWhile ?P (replicate i (CHR ''*'') @ st) = []"
      by (simp only: a)
    have "stripWildcards (replicate i (CHR ''*'') @ st) = rev (dropWhile ?P (rev []))"
      unfolding stripWildcards_def b ..
    then have "stripWildcards (replicate i (CHR ''*'') @ st) = []" by simp
    then show ?thesis using True by (simp add: st_def)
  next
    case False
    then have e: "hd p \<noteq> CHR ''*''" "last p \<noteq> CHR ''*''" using assms by auto
    have "hd (p @ st) = hd p" using False by simp
    then have 2: "dropWhile ?P (p @ st) = p @ st"
      using False e(1) by (intro dropWhile_id_hd) simp
    have 3: "rev (p @ st) = st @ rev p" by (simp add: rs)
    have "hd (rev p) = last p" using False by (simp add: hd_rev)
    then have 4: "dropWhile ?P (rev p) = rev p"
      using False e(2) by (intro dropWhile_id_hd) simp
    have "stripWildcards (replicate i (CHR ''*'') @ p @ st) = rev (dropWhile ?P (rev (p @ st)))"
      unfolding stripWildcards_def 1 2 ..
    also have "\<dots> = rev (dropWhile ?P (rev p))" unfolding 3 ds ..
    also have "\<dots> = p" unfolding 4 by simp
    finally show ?thesis by (simp only: st_def)
  qed
qed

lemma URLFilter_new_pattern:
  assumes "\<not> isRegexpLiteral src"
  shows "URLFilter_new E pd cls ftext src ct mc dsrc tp sk =
     Some \<lparr>filter_text = ftext, filter_type = cls,
            filter_pattern = Some (stripWildcards (normalizedSource mc src)),
            filter_regexp = None,
            filter_contentType = (case ct of None \<Rightarrow> RESOURCE_TYPES E | Some c \<Rightarrow> c),
            filter_matchCase = (mc = Some True),
            filter_thirdParty = tp,
            filter_domains = (case dsrc of None \<Rightarrow> None
                | Some s \<Rightarrow> if s = '''' then None else pd (toLowerCase s) (CHR ''|'')),
            filter_sitekeys = (case sk of None \<Rightarrow> None
                | Some s \<Rightarrow> if s = '''' then None else Some (splitOn (CHR ''|'') s))\<rparr>"
proof (cases "mc = Some True")
  case True
  then show ?thesis using assms
    by (simp add: URLFilter_new_def normalizedSource_def Let_def)
next
  case False
  then have m: "(case mc of None \<Rightarrow> False | Some b \<Rightarrow> b) = False" by (cases mc) auto
  show ?thesis using assms False
    by (simp add: URLFilter_new_def normalizedSource_def Let_def m isRegexpLiteral_toLowerCase)
qed

lemma text_irrelevant_regexp: "URLFilter_regexp E (f\<lparr>filter_text := t\<rparr>) = URLFilter_regexp E f"
  by (simp add: URLFilter_regexp_def cong: option.case_cong)

lemma text_irrelevant_location:
  "URLFilter_matchesLocation E (f\<lparr>filter_text := t\<rparr>) r = URLFilter_matchesLocation E f r"
  by (simp add: URLFilter_matchesLocation_def text_irrelevant_regexp cong: option.case_cong)

lemma text_irrelevant_domain:
  "isActiveOnDomain (f\<lparr>filter_text := t\<rparr>) d key = isActiveOnDomain f d key"
  by (simp add: isActiveOnDomain_def cong: option.case_cong)

lemma text_irrelevant:
  "URLFilter_matches E (f\<lparr>filter_text := t\<rparr>) r tm key = URLFilter_matches E f r tm key"
  "findKeyword_with c (f\<lparr>filter_text := t\<rparr>) = findKeyword_with c f"
  by (simp_all add: URLFilter_matches_def text_irrelevant_location text_irrelevant_domain
      findKeyword_with_def cong: option.case_cong)

text \<open>
  C9 (amended). When a URL filter is constructed from a source that is not written as a
  regular expression, the constructor succeeds and the stored pattern \<open>p\<close> is the
  source, lower-cased unless the filter is case sensitive, without its leading and
  trailing wildcards: the lower-cased source is \<open>p\<close> between two runs of \<open>*\<close>,
  \<open>p\<close> neither begins nor ends with \<open>*\<close>, and \<open>p\<close> is the only such string.
  Provided that the stripped pattern does not itself read as a regular expression, the
  filter constructed from the stripped pattern (or from any source that lower-cases to
  it) is the same filter but for its text, so that its matching of requests and its
  keyword are those of the filter.
\<close>

theorem URLFilter_pattern_stripped:
  assumes "\<not> isRegexpLiteral src"
  shows "\<exists>f p i j.
      URLFilter_new E pd cls ftext src ct mc dsrc tp sk = Some f
    \<and> filter_pattern f = Some p \<and> filter_regexp f = None
    \<and> normalizedSource mc src = replicate i (CHR ''*'') @ p @ replicate j (CHR ''*'')
    \<and> (p = [] \<or> (hd p \<noteq> CHR ''*'' \<and> last p \<noteq> CHR ''*''))
    \<and> (\<forall>q i' j'. normalizedSource mc src = replicate i' (CHR ''*'') @ q @ replicate j' (CHR ''*'')
           \<and> (q = [] \<or> (hd q \<noteq> CHR ''*'' \<and> last q \<noteq> CHR ''*'')) \<longrightarrow> q = p)
    \<and> normalizedSource mc p = p
    \<and> (\<not> isRegexpLiteral p \<longrightarrow>
         (\<forall>ftext' src'. normalizedSource mc src' = p \<longrightarrow>
            (\<exists>g. URLFilter_new E pd cls ftext' src' ct mc dsrc tp sk = Some g
               \<and> g = f\<lparr>filter_text := ftext'\<rparr>
               \<and> (\<forall>r tm key. URLFilter_matches E g r tm key = URLFilter_matches E f r tm key)
               \<and> (\<forall>c. findKeyword_with c g = findKeyword_with c f))))"
proof -
  define p where "p = stripWildcards (normalizedSource mc src)"
  define f where "f = \<lparr>filter_text = ftext, filter_type = cls,
            filter_pattern = Some p,
            filter_regexp = None,
            filter_contentType = (case ct of None \<Rightarrow> RESOURCE_TYPES E | Some c \<Rightarrow> c),
            filter_matchCase = (mc = Some True),
            filter_thirdParty = tp,
            filter_domains = (case dsrc of None \<Rightarrow> None
                | Some s \<Rightarrow> if s = '''' then None else pd (toLowerCase s) (CHR ''|'')),
            filter_sitekeys = (case sk of None \<Rightarrow> None
                | Some s \<Rightarrow> if s = '''' then None else Some (splitOn (CHR ''|'') s))\<rparr>"
  have n: "URLFilter_new E pd cls ftext src ct mc dsrc tp sk = Some f"
    unfolding f_def p_def by (rule URLFilter_new_pattern[OF assms])
  obtain i j where d: "normalizedSource mc src
      = replicate i (CHR ''*'') @ p @ replicate j (CHR ''*'')"
    unfolding p_def using stripWildcards_decomposition[of "normalizedSource mc src"] by blast
  have e: "p = [] \<or> (hd p \<noteq> CHR ''*'' \<and> last p \<noteq> CHR ''*'')"
    unfolding p_def by (rule stripWildcards_ends)
  have u: "\<forall>q i' j'. normalizedSource mc src = replicate i' (CHR ''*'') @ q @ replicate j' (CHR ''*'')
           \<and> (q = [] \<or> (hd q \<noteq> CHR ''*'' \<and> last q \<noteq> CHR ''*'')) \<longrightarrow> q = p"
  proof (intro allI impI)
    fix q i' j'
    assume a: "normalizedSource mc src = replicate i' (CHR ''*'') @ q @ replicate j' (CHR ''*'')
           \<and> (q = [] \<or> (hd q \<noteq> CHR ''*'' \<and> last q \<noteq> CHR ''*''))"
    then have "stripWildcards (normalizedSource mc src) = q"
      using stripWildcards_stars[of q i' j'] by simp
    then show "q = p" by (simp add: p_def)
  qed
  have l: "normalizedSource mc p = p"
    unfolding p_def
    by (simp add: normalizedSource_def toLowerCase_stripWildcards toLowerCase_idem)
  have b: "\<not> isRegexpLiteral p \<longrightarrow>
         (\<forall>ftext' src'. normalizedSource mc src' = p \<longrightarrow>
            (\<exists>g. URLFilter_new E pd cls ftext' src' ct mc dsrc tp sk = Some g
               \<and> g = f\<lparr>filter_text := ftext'\<rparr>
               \<and> (\<forall>r tm key. URLFilter_matches E g r tm key = URLFilter_matches E f r tm key)
               \<and> (\<forall>c. findKeyword_with c g = findKeyword_with c f)))"
  proof (intro impI allI)
    fix ftext' src'
    assume np: "\<not> isRegexpLiteral p" and s: "normalizedSource mc src' = p"
    have "\<not> isRegexpLiteral src'"
      using np s isRegexpLiteral_normalizedSource[of mc src'] by simp
    from URLFilter_new_pattern[OF this, of E pd cls ftext' ct mc dsrc tp sk]
    have g: "URLFilter_new E pd cls ftext' src' ct mc dsrc tp sk = Some (f\<lparr>filter_text := ftext'\<rparr>)"
      by (simp add: s f_def stripWildcards_fixed[OF e])
    show "\<exists>g. URLFilter_new E pd cls ftext' src' ct mc dsrc tp sk = Some g
               \<and> g = f\<lparr>filter_text := ftext'\<rparr>
               \<and> (\<forall>r tm key. URLFilter_matches E g r tm key = URLFilter_matches E f r tm key)
               \<and> (\<forall>c. findKeyword_with c g = findKeyword_with c f)"
      using g by (simp add: text_irrelevant)
  qed
  have fp: "filter_pattern f = Some p" "filter_regexp f = None" by (simp_all add: f_def)
  show ?thesis
    by (rule exI[of _ f], rule exI[of _ p], rule exI[of _ i], rule exI[of _ j], intro conjI)
      (rule n fp d e u l b)+
qed

text \<open>The filter built from \<open>*FOO*\<close> stores \<open>foo\<close>, and is the filter built from \<open>foo\<close> but for its text.\<close>

theorem URLFilter_pattern_stripped_witness:
  "URLFilter_new testEnv (\<lambda>s c. None) Blocking ''*FOO*'' ''*FOO*'' None None None None None
     = Some \<lparr>filter_text = ''*FOO*'', filter_type = Blocking, filter_pattern = Some ''foo'',
              filter_regexp = None, filter_contentType = RESOURCE_TYPES testEnv, filter_matchCase = False,
              filter_thirdParty = None, filter_domains = None, filter_sitekeys = None\<rparr>
   \<and> URLFilter_new testEnv (\<lambda>s c. None) Blocking ''foo'' ''foo'' None None None None None
     = Some \<lparr>filter_text = ''foo'', filter_type = Blocking, filter_pattern = Some ''foo'',
              filter_regexp = None, filter_contentType = RESOURCE_TYPES testEnv, filter_matchCase = False,
              filter_thirdParty = None, filter_domains = None, filter_sitekeys = None\<rparr>"
proof -
  have h: "\<not> isRegexpLiteral ''*FOO*''" by (simp add: isRegexpLiteral_def)
  have lw: "normalizedSource None ''*FOO*'' = ''*foo*''"
    by (simp add: normalizedSource_def toLowerCase_def toLowerChar_def upperLetters_def
        lowerLetters_def)
  have lf: "normalizedSource None ''foo'' = ''foo''"
    by (simp add: normalizedSource_def toLowerCase_def toLowerChar_def upperLetters_def
        lowerLetters_def)
  obtain f p i j where f:
    "URLFilter_new testEnv (\<lambda>s c. None) Blocking ''*FOO*'' ''*FOO*'' None None None None None = Some f"
    "filter_pattern f = Some p"
    "\<not> isRegexpLiteral p \<longrightarrow>
         (\<forall>ftext' src'. normalizedSource None src' = p \<longrightarrow>
            (\<exists>g. URLFilter_new testEnv (\<lambda>s c. None) Blocking ftext' src' None None None None None = Some g
               \<and> g = f\<lparr>filter_text := ftext'\<rparr>
               \<and> (\<forall>r tm key. URLFilter_matches testEnv g r tm key = URLFilter_matches testEnv f r tm key)
               \<and> (\<forall>c. findKeyword_with c g = findKeyword_with c f)))"
    using URLFilter_pattern_stripped[OF h, of testEnv "\<lambda>s c. None" Blocking "''*FOO*''" None None
        None None None]
    by blast
  have v: "f = \<lparr>filter_text = ''*FOO*'', filter_type = Blocking, filter_pattern = Some ''foo'',
              filter_regexp = None, filter_contentType = RESOURCE_TYPES testEnv, filter_matchCase = False,
              filter_thirdParty = None, filter_domains = None, filter_sitekeys = None\<rparr>"
    using f(1) by (simp add: URLFilter_new_def Let_def isRegexpLiteral_def toLowerCase_def
        toLowerChar_def upperLetters_def lowerLetters_def stripWildcards_def)
  have p: "p = ''foo''" using f(2) v by simp
  have n: "\<not> isRegexpLiteral p" by (simp add: p isRegexpLiteral_def)
  have "URLFilter_new testEnv (\<lambda>s c. None) Blocking ''foo'' ''foo'' None None None None None
          = Some (f\<lparr>filter_text := ''foo''\<rparr>)"
    using f(3) n lf p by auto
  then show ?thesis using f(1) v by simp
qed

text \<open>
  The source \<open>/foo/*\<close> is not written as a regular expression; its stored pattern is
  \<open>/foo/\<close>, a literal pattern with the keyword \<open>foo\<close>. The filter constructed from the
  stripped string \<open>/foo/\<close> is the regular expression \<open>foo\<close>, without a keyword, and it
  matches the address \<open>http://a/foox\<close>, which the first filter does not match.
\<close>

theorem URLFilter_pattern_stripped_counterexample:
  "\<not> isRegexpLiteral ''/foo/*''
   \<and> URLFilter_new containsEnv (\<lambda>s c. None) Blocking ''/foo/*'' ''/foo/*'' None None None None None
     = Some \<lparr>filter_text = ''/foo/*'', filter_type = Blocking, filter_pattern = Some ''/foo/'',
              filter_regexp = None, filter_contentType = 16777215, filter_matchCase = False,
              filter_thirdParty = None, filter_domains = None, filter_sitekeys = None\<rparr>
   \<and> URLFilter_new containsEnv (\<lambda>s c. None) Blocking ''/foo/'' ''/foo/'' None None None None None
     = Some \<lparr>filter_text = ''/foo/'', filter_type = Blocking, filter_pattern = None,
              filter_regexp = Some ''foo'', filter_contentType = 16777215, filter_matchCase = False,
              filter_thirdParty = None, filter_domains = None, filter_sitekeys = None\<rparr>
   \<and> findKeyword_with (\<lambda>k. 0)
        \<lparr>filter_text = ''/foo/*'', filter_type = Blocking, filter_pattern = Some ''/foo/'',
              filter_regexp = None, filter_contentType = 16777215, filter_matchCase = False,
              filter_thirdParty = None, filter_domains = None, filter_sitekeys = None\<rparr> = ''foo''
   \<and> findKeyword_with (\<lambda>k. 0)
        \<lparr>filter_text = ''/foo/'', filter_type = Blocking, filter_pattern = None,
              filter_regexp = Some ''foo'', filter_contentType = 16777215, filter_matchCase = False,
              filter_thirdParty = None, filter_domains = None, filter_sitekeys = None\<rparr> = ''''
   \<and> URLFilter_matches containsEnv
        \<lparr>filter_text = ''/foo/*'', filter_type = Blocking, filter_pattern = Some ''/foo/'',
              filter_regexp = None, filter_contentType = 16777215, filter_matchCase = False,
              filter_thirdParty = None, filter_domains = None, filter_sitekeys = None\<rparr>
        \<lparr>href = ''http://a/foox'', lowerCaseHref = ''http://a/foox'',
         documentHostname = Some ''a'', thirdParty = False\<rparr> 2 None = Some False
   \<and> URLFilter_matches containsEnv
        \<lparr>filter_text = ''/foo/'', filter_type = Blocking, filter_pattern = None,
              filter_regexp = Some ''foo'', filter_contentType = 16777215, filter_matchCase = False,
              filter_thirdParty = None, filter_domains = None, filter_sitekeys = None\<rparr>
        \<lparr>href = ''http://a/foox'', lowerCaseHref = ''http://a/foox'',
         documentHostname = Some ''a'', thirdParty = False\<rparr> 2 None = Some True"
proof -
  have lw: "toLowerCase ''/foo/*'' = ''/foo/*''" "toLowerCase ''/foo/'' = ''/foo/''"
    by (simp_all add: toLowerCase_def toLowerChar_def upperLetters_def lowerLetters_def)
  have kw: "matchAllKeywords ''/foo/'' = [''/foo'']"
    by (simp add: matchAllKeywords.simps isKeywordChar_def)
  have 1: "\<not> isRegexpLiteral ''/foo/*''" by (simp add: isRegexpLiteral_def)
  have 2: "URLFilter_new containsEnv (\<lambda>s c. None) Blocking ''/foo/*'' ''/foo/*'' None None None None None
     = Some \<lparr>filter_text = ''/foo/*'', filter_type = Blocking, filter_pattern = Some ''/foo/'',
              filter_regexp = None, filter_contentType = 16777215, filter_matchCase = False,
              filter_thirdParty = None, filter_domains = None, filter_sitekeys = None\<rparr>"
    by (simp add: URLFilter_new_def Let_def lw isRegexpLiteral_def stripWildcards_def
        containsEnv_def testEnv_def)
  have 3: "URLFilter_new containsEnv (\<lambda>s c. None) Blocking ''/foo/'' ''/foo/'' None None None None None
     = Some \<lparr>filter_text = ''/foo/'', filter_type = Blocking, filter_pattern = None,
              filter_regexp = Some ''foo'', filter_contentType = 16777215, filter_matchCase = False,
              filter_thirdParty = None, filter_domains = None, filter_sitekeys = None\<rparr>"
    by (simp add: URLFilter_new_def Let_def lw isRegexpLiteral_def containsEnv_def testEnv_def)
  have 4: "findKeyword_with (\<lambda>k. 0)
        \<lparr>filter_text = ''/foo/*'', filter_type = Blocking, filter_pattern = Some ''/foo/'',
              filter_regexp = None, filter_contentType = 16777215, filter_matchCase = False,
              filter_thirdParty = None, filter_domains = None, filter_sitekeys = None\<rparr> = ''foo''"
    by (simp add: findKeyword_with_def lw kw findKeyword_step_def isBadKeyword_def Let_def)
  have 5: "findKeyword_with (\<lambda>k. 0)
        \<lparr>filter_text = ''/foo/'', filter_type = Blocking, filter_pattern = None,
              filter_regexp = Some ''foo'', filter_contentType = 16777215, filter_matchCase = False,
              filter_thirdParty = None, filter_domains = None, filter_sitekeys = None\<rparr> = ''''"
    by (simp add: findKeyword_with_def)
  have lit: "isLiteralPattern ''/foo/''"
    by (simp add: isLiteralPattern_def stripTrailingAnchor_def isSpecialChar_def)
  have loc: "\<not> matchesLiteral containsEnv ''/foo/'' ''http://a/foox''"
    by (simp add: matchesLiteral_def isSeparator_def indexOf.simps)
  have con: "contains ''http://a/foox'' ''foo''"
    by (simp add: contains_def indexOf.simps)
  have 6: "URLFilter_matches containsEnv
        \<lparr>filter_text = ''/foo/*'', filter_type = Blocking, filter_pattern = Some ''/foo/'',
              filter_regexp = None, filter_contentType = 16777215, filter_matchCase = False,
              filter_thirdParty = None, filter_domains = None, filter_sitekeys = None\<rparr>
        \<lparr>href = ''http://a/foox'', lowerCaseHref = ''http://a/foox'',
         documentHostname = Some ''a'', thirdParty = False\<rparr> 2 None = Some False"
    by (simp add: URLFilter_matches_def URLFilter_matchesLocation_def URLFilter_regexp_def lit loc)
  have 7: "URLFilter_matches containsEnv
        \<lparr>filter_text = ''/foo/'', filter_type = Blocking, filter_pattern = None,
              filter_regexp = Some ''foo'', filter_contentType = 16777215, filter_matchCase = False,
              filter_thirdParty = None, filter_domains = None, filter_sitekeys = None\<rparr>
        \<lparr>href = ''http://a/foox'', lowerCaseHref = ''http://a/foox'',
         documentHostname = Some ''a'', thirdParty = False\<rparr> 2 None = Some True"
    by (simp add: URLFilter_matches_def URLFilter_matchesLocation_def URLFilter_regexp_def
        isActiveOnDomain_def containsEnv_def testEnv_def con)
  show ?thesis by (intro conjI) (rule 1 2 3 4 5 6 7)+
qed

subsection \<open>URL filters: matching a request\<close>

text \<open>
  C2. \<open>matches\<close> is the conjunction of the content-type test, the third-party test, the
  location test and \<open>isActiveOnDomain\<close>. For a pattern of literal characters the location
  test looks at the first occurrence of the text only: the filter \<open>foo^\<close> (all resource
  types, no domains, no sitekeys) is of a type of the mask, is active on the document
  domain, and its pattern matches \<open>http://a/foobar/foo/\<close> (\<open>foo\<close> followed by a
  separator), yet \<open>matches\<close> returns false there, while it returns true on
  \<open>http://a/foo/\<close>.
\<close>

theorem URLFilter_matches_first_occurrence:
  "and (filter_contentType
          \<lparr>filter_text = ''foo^'', filter_type = Blocking, filter_pattern = Some ''foo^'',
             filter_regexp = None, filter_contentType = 16777215, filter_matchCase = False,
             filter_thirdParty = None, filter_domains = None, filter_sitekeys = None\<rparr>) 2 \<noteq> 0
   \<and> isActiveOnDomain
          \<lparr>filter_text = ''foo^'', filter_type = Blocking, filter_pattern = Some ''foo^'',
             filter_regexp = None, filter_contentType = 16777215, filter_matchCase = False,
             filter_thirdParty = None, filter_domains = None, filter_sitekeys = None\<rparr>
          (Some ''a'') None = Some True
   \<and> specMatches ''foo^'' ''http://a/foobar/foo/''
   \<and> URLFilter_matches E
          \<lparr>filter_text = ''foo^'', filter_type = Blocking, filter_pattern = Some ''foo^'',
             filter_regexp = None, filter_contentType = 16777215, filter_matchCase = False,
             filter_thirdParty = None, filter_domains = None, filter_sitekeys = None\<rparr>
          \<lparr>href = ''http://a/foobar/foo/'', lowerCaseHref = ''http://a/foobar/foo/'',
             documentHostname = Some ''a'', thirdParty = False\<rparr> 2 None = Some False
   \<and> URLFilter_matches E
          \<lparr>filter_text = ''foo^'', filter_type = Blocking, filter_pattern = Some ''foo^'',
             filter_regexp = None, filter_contentType = 16777215, filter_matchCase = False,
             filter_thirdParty = None, filter_domains = None, filter_sitekeys = None\<rparr>
          \<lparr>href = ''http://a/foo/'', lowerCaseHref = ''http://a/foo/'',
             documentHostname = Some ''a'', thirdParty = False\<rparr> 2 None = Some True"
proof -
  have lit: "isLiteralPattern ''foo^''"
    by (simp add: isLiteralPattern_def stripTrailingAnchor_def isSpecialChar_def)
  have sp: "specMatches ''foo^'' ''http://a/foobar/foo/''"
    by (simp add: specMatches_def isSeparator_def upt_rec[of _ "Suc _"] upt_rec[of _ "numeral _"])
  have l1: "matchesLiteral E ''foo^'' ''http://a/foobar/foo/'' = False"
    by (simp add: matchesLiteral_def isSeparator_def)
  have l2: "matchesLiteral E ''foo^'' ''http://a/foo/'' = True"
    by (simp add: matchesLiteral_def isSeparator_def)
  show ?thesis
    using lit sp l1 l2
    by (simp add: URLFilter_matches_def URLFilter_matchesLocation_def URLFilter_regexp_def
        isActiveOnDomain_def)
qed

subsection \<open>The matcher on the example filters\<close>

lemma kw_ads: "matchAllKeywords ''/ads^'' = [''/ads'']"
  by (simp add: matchAllKeywords.simps isKeywordChar_def)

lemma kw_banner: "matchAllKeywords ''/ads/banner'' = [''/ads'']"
  by (simp add: matchAllKeywords.simps isKeywordChar_def)

lemma lower_ads: "toLowerCase ''/ads^'' = ''/ads^''"
  by (simp add: toLowerCase_def toLowerChar_def upperLetters_def lowerLetters_def)

lemma lower_banner: "toLowerCase ''/ads/banner'' = ''/ads/banner''"
  by (simp add: toLowerCase_def toLowerChar_def upperLetters_def lowerLetters_def)

lemma findKeyword_ads:
  "c ''ads'' < 16777215 \<Longrightarrow> findKeyword_with c adsBlocking = ''ads''"
  by (simp add: findKeyword_with_def adsBlocking_def lower_ads kw_ads findKeyword_step_def isBadKeyword_def Let_def)

lemma findKeyword_banner:
  "c ''ads'' < 16777215 \<Longrightarrow> findKeyword_with c bannerBlocking = ''ads''"
  by (simp add: findKeyword_with_def bannerBlocking_def lower_banner kw_banner findKeyword_step_def isBadKeyword_def Let_def)

lemma candidates_ads:
  "urlCandidates ''http://a.com/ads/banner'' = [''http'', ''com'', ''ads'', ''banner'', '''']"
  by (simp add: urlCandidates.simps isKeywordChar_def)


lemma simple_examples:
  "\<not> isSimple exampleEnv adsBlocking" "\<not> isSimple exampleEnv bannerBlocking"
  "\<not> isSimple exampleEnv adsWhitelist" "\<not> isSimple exampleEnv adsBlockingOnDomain"
  by (simp_all add: isSimple_def exampleEnv_def testEnv_def adsBlocking_def bannerBlocking_def
      adsWhitelist_def adsBlockingOnDomain_def)

lemma special_types_example: "enumerateTypes 2 (SPECIAL_TYPES exampleEnv) = []"
proof -
  have "and (2::32 word) 2130706432 = 0" by simp
  then show ?thesis by (simp add: enumerateTypes_def exampleEnv_def testEnv_def)
qed

lemma add_ads_first:
  "Matcher2_add exampleEnv Matcher2_new adsBlocking =
     \<lparr>keywordByFilter_sc = [(''/ads^$script'', ''ads'')], simpleFiltersByKeyword = [],
      complexFiltersByKeyword = [(''ads'', Single ''/ads^$script'')],
      compiledPatternsByKeyword_sc = [], filterMapsByType_sc = []\<rparr>"
proof -
  have k: "Matcher2_findKeyword Matcher2_new adsBlocking = ''ads''"
    unfolding Matcher2_findKeyword_def by (rule findKeyword_ads) (simp add: Matcher2_new_def)
  have c: "filter_contentType adsBlocking = 2" "filter_text adsBlocking = ''/ads^$script''"
    by (simp_all add: adsBlocking_def)
  show ?thesis
    by (simp add: Matcher2_add_def Let_def k c simple_examples special_types_example
        addFilterByKeyword_def) (simp add: Matcher2_new_def)
qed

lemma add_banner_first:
  "Matcher2_add exampleEnv Matcher2_new bannerBlocking =
     \<lparr>keywordByFilter_sc = [(''/ads/banner$script'', ''ads'')], simpleFiltersByKeyword = [],
      complexFiltersByKeyword = [(''ads'', Single ''/ads/banner$script'')],
      compiledPatternsByKeyword_sc = [], filterMapsByType_sc = []\<rparr>"
proof -
  have k: "Matcher2_findKeyword Matcher2_new bannerBlocking = ''ads''"
    unfolding Matcher2_findKeyword_def by (rule findKeyword_banner) (simp add: Matcher2_new_def)
  have c: "filter_contentType bannerBlocking = 2" "filter_text bannerBlocking = ''/ads/banner$script''"
    by (simp_all add: bannerBlocking_def)
  show ?thesis
    by (simp add: Matcher2_add_def Let_def k c simple_examples special_types_example
        addFilterByKeyword_def) (simp add: Matcher2_new_def)
qed

lemma add_ads_banner:
  "Matcher2_add exampleEnv (Matcher2_add exampleEnv Matcher2_new adsBlocking) bannerBlocking =
     \<lparr>keywordByFilter_sc = [(''/ads^$script'', ''ads''), (''/ads/banner$script'', ''ads'')],
      simpleFiltersByKeyword = [],
      complexFiltersByKeyword = [(''ads'', SetOf [''/ads^$script'', ''/ads/banner$script''])],
      compiledPatternsByKeyword_sc = [], filterMapsByType_sc = []\<rparr>"
proof -
  let ?m = "\<lparr>keywordByFilter_sc = [(''/ads^$script'', ''ads'')], simpleFiltersByKeyword = [],
      complexFiltersByKeyword = [(''ads'', Single ''/ads^$script'')],
      compiledPatternsByKeyword_sc = [], filterMapsByType_sc = []\<rparr>"
  have k: "Matcher2_findKeyword ?m bannerBlocking = ''ads''"
    unfolding Matcher2_findKeyword_def by (rule findKeyword_banner) simp
  have c: "filter_contentType bannerBlocking = 2" "filter_text bannerBlocking = ''/ads/banner$script''"
    by (simp_all add: bannerBlocking_def)
  have "Matcher2_add exampleEnv ?m bannerBlocking =
     \<lparr>keywordByFilter_sc = [(''/ads^$script'', ''ads''), (''/ads/banner$script'', ''ads'')],
      simpleFiltersByKeyword = [],
      complexFiltersByKeyword = [(''ads'', SetOf [''/ads^$script'', ''/ads/banner$script''])],
      compiledPatternsByKeyword_sc = [], filterMapsByType_sc = []\<rparr>"
    by (simp add: Matcher2_add_def Let_def k c simple_examples special_types_example
        addFilterByKeyword_def)
  then show ?thesis by (simp only: add_ads_first)
qed

lemma add_banner_ads:
  "Matcher2_add exampleEnv (Matcher2_add exampleEnv Matcher2_new bannerBlocking) adsBlocking =
     \<lparr>keywordByFilter_sc = [(''/ads/banner$script'', ''ads''), (''/ads^$script'', ''ads'')],
      simpleFiltersByKeyword = [],
      complexFiltersByKeyword = [(''ads'', SetOf [''/ads/banner$script'', ''/ads^$script''])],
      compiledPatternsByKeyword_sc = [], filterMapsByType_sc = []\<rparr>"
proof -
  let ?m = "\<lparr>keywordByFilter_sc = [(''/ads/banner$script'', ''ads'')], simpleFiltersByKeyword = [],
      complexFiltersByKeyword = [(''ads'', Single ''/ads/banner$script'')],
      compiledPatternsByKeyword_sc = [], filterMapsByType_sc = []\<rparr>"
  have k: "Matcher2_findKeyword ?m adsBlocking = ''ads''"
    unfolding Matcher2_findKeyword_def by (rule findKeyword_ads) simp
  have c: "filter_contentType adsBlocking = 2" "filter_text adsBlocking = ''/ads^$script''"
    by (simp_all add: adsBlocking_def)
  have "Matcher2_add exampleEnv ?m adsBlocking =
     \<lparr>keywordByFilter_sc = [(''/ads/banner$script'', ''ads''), (''/ads^$script'', ''ads'')],
      simpleFiltersByKeyword = [],
      complexFiltersByKeyword = [(''ads'', SetOf [''/ads/banner$script'', ''/ads^$script''])],
      compiledPatternsByKeyword_sc = [], filterMapsByType_sc = []\<rparr>"
    by (simp add: Matcher2_add_def Let_def k c simple_examples special_types_example
        addFilterByKeyword_def)
  then show ?thesis by (simp only: add_banner_first)
qed

lemma fromText_examples:
  "fromText exampleEnv ''/ads^$script'' = adsBlocking"
  "fromText exampleEnv ''/ads/banner$script'' = bannerBlocking"
  "fromText exampleEnv ''@@/ads^$script'' = adsWhitelist"
  "fromText exampleEnv ''/ads^$script,domain=a.com'' = adsBlockingOnDomain"
  by (simp_all add: exampleEnv_def adsBlocking_def bannerBlocking_def adsWhitelist_def
      adsBlockingOnDomain_def)

lemma literal_examples: "isLiteralPattern ''/ads^''" "isLiteralPattern ''/ads/banner''"
  by (simp_all add: isLiteralPattern_def stripTrailingAnchor_def isSpecialChar_def)

lemma location_examples:
  "matchesLiteral E ''/ads^'' ''http://a.com/ads/banner''"
  "matchesLiteral E ''/ads/banner'' ''http://a.com/ads/banner''"
  by (simp_all add: matchesLiteral_def isSeparator_def)

lemma suffixes_example: "domainSuffixes ''a.com'' False = [''a.com'', ''com'']"
  by (simp add: domainSuffixes.simps dropLabel_def)

lemma matches_examples:
  "URLFilter_matches E adsBlocking adsRequest 2 None = Some True"
  "URLFilter_matches E bannerBlocking adsRequest 2 None = Some True"
  "URLFilter_matches E adsWhitelist adsRequest 2 None = Some True"
  "URLFilter_matches E adsBlockingOnDomain adsRequest 2 None = Some True"
  by (auto simp: URLFilter_matches_def URLFilter_matchesLocation_def URLFilter_regexp_def
      isActiveOnDomain_def adsBlocking_def bannerBlocking_def adsWhitelist_def
      adsBlockingOnDomain_def adsRequest_def literal_examples location_examples
      suffixes_example firstDefined_def Let_def)

lemma generic_examples:
  "isGeneric adsBlocking" "isGeneric bannerBlocking" "isGeneric adsWhitelist"
  "\<not> isGeneric adsBlockingOnDomain"
  by (simp_all add: isGeneric_def adsBlocking_def bannerBlocking_def adsWhitelist_def
      adsBlockingOnDomain_def)

lemma masks_example:
  "and (2::32 word) (RESOURCE_TYPES exampleEnv) \<noteq> 0"
  "and (2::32 word) (SPECIAL_TYPES exampleEnv) = 0"
  "and (2::32 word) (not (WHITELISTING_TYPES exampleEnv)) \<noteq> 0"
  "and (2::32 word) (WHITELISTING_TYPES exampleEnv) = 0"
  by (simp_all add: exampleEnv_def testEnv_def)

lemma match_complex_ads:
  assumes "simpleFiltersByKeyword m = []" "complexFiltersByKeyword m = [(''ads'', b)]"
    "truthyBucket (Some b)"
  shows "Matcher2_match exampleEnv m adsRequest 2 sitekey specificOnly =
     (fst (scanFilters exampleEnv adsRequest 2 sitekey specificOnly (bucketList b) None), m)"
proof -
  have c: "urlCandidates (lowerCaseHref adsRequest) = [''http'', ''com'', ''ads'', ''banner'', '''']"
    by (simp add: adsRequest_def candidates_ads)
  have s: "checkEntryMatchSimple exampleEnv m k adsRequest None = (None, None, m)" for k
    using assms(1) by (simp add: checkEntryMatchSimple_def)
  have x: "checkEntryMatchComplex exampleEnv m ''ads'' adsRequest 2 sitekey specificOnly None
      = scanFilters exampleEnv adsRequest 2 sitekey specificOnly (bucketList b) None"
    using assms(2,3) by (simp add: checkEntryMatchComplex_def)
  have y: "checkEntryMatchComplex exampleEnv m k adsRequest 2 sitekey specificOnly None = (None, None)"
    if "k \<noteq> ''ads''" for k
    using assms(2) that by (simp add: checkEntryMatchComplex_def)
  have e: "checkEntryMatch exampleEnv m k adsRequest 2 sitekey specificOnly None
      = (case checkEntryMatchComplex exampleEnv m k adsRequest 2 sitekey specificOnly None of
           (r, c') \<Rightarrow> (r, c', m))" for k
    by (simp add: checkEntryMatch_def s masks_example)
  show ?thesis
    unfolding Matcher2_match_def c
    by (cases "scanFilters exampleEnv adsRequest 2 sitekey specificOnly (bucketList b) None")
       (auto simp: e x y isBadKeyword_def split: option.splits prod.splits)
qed

lemma internalLoop_hit:
  "internalLoop E m request typeMask sitekey specificOnly (Some x) cs = (Some x, m)"
  by (cases cs) simp_all

lemma internalLoop_matchLoop:
  "internalLoop E m request typeMask sitekey specificOnly None cs
     = matchLoop E m request typeMask sitekey specificOnly cs"
proof (induction cs arbitrary: m)
  case Nil then show ?case by simp
next
  case (Cons c cs)
  show ?case
  proof (cases "isBadKeyword c")
    case True then show ?thesis using Cons by simp
  next
    case False
    obtain r col m' where e: "checkEntryMatch E m c request typeMask sitekey specificOnly None = (r, col, m')"
      by (cases "checkEntryMatch E m c request typeMask sitekey specificOnly None") auto
    show ?thesis
    proof (cases r)
      case None then show ?thesis using False e Cons by simp
    next
      case (Some x) then show ?thesis using False e by (simp add: internalLoop_hit)
    qed
  qed
qed

lemma findKeyword_ads_pattern:
  assumes "filter_pattern f = Some ''/ads^''" "c ''ads'' < 16777215"
  shows "findKeyword_with c f = ''ads''"
  using assms
  by (simp add: findKeyword_with_def lower_ads kw_ads findKeyword_step_def isBadKeyword_def Let_def)

lemma add_complex_first:
  assumes "filter_pattern f = Some ''/ads^''" "filter_contentType f = 2"
  shows "Matcher2_add exampleEnv Matcher2_new f =
     \<lparr>keywordByFilter_sc = [(filter_text f, ''ads'')], simpleFiltersByKeyword = [],
      complexFiltersByKeyword = [(''ads'', Single (filter_text f))],
      compiledPatternsByKeyword_sc = [], filterMapsByType_sc = []\<rparr>"
proof -
  have k: "Matcher2_findKeyword Matcher2_new f = ''ads''"
    unfolding Matcher2_findKeyword_def
    by (rule findKeyword_ads_pattern[OF assms(1)]) (simp add: Matcher2_new_def)
  have s: "\<not> isSimple exampleEnv f"
    using assms(2) by (simp add: isSimple_def exampleEnv_def testEnv_def)
  show ?thesis
    by (simp add: Matcher2_add_def Let_def k assms(2) s special_types_example
        addFilterByKeyword_def) (simp add: Matcher2_new_def)
qed

lemma combined_blocking_whitelist:
  "CombinedMatcher_add exampleEnv (CombinedMatcher_add exampleEnv CombinedMatcher_new adsBlocking)
     adsWhitelist =
   \<lparr>blocking = \<lparr>keywordByFilter_sc = [(''/ads^$script'', ''ads'')], simpleFiltersByKeyword = [],
      complexFiltersByKeyword = [(''ads'', Single ''/ads^$script'')],
      compiledPatternsByKeyword_sc = [], filterMapsByType_sc = []\<rparr>,
    whitelist = \<lparr>keywordByFilter_sc = [(''@@/ads^$script'', ''ads'')], simpleFiltersByKeyword = [],
      complexFiltersByKeyword = [(''ads'', Single ''@@/ads^$script'')],
      compiledPatternsByKeyword_sc = [], filterMapsByType_sc = []\<rparr>,
    resultCache = []\<rparr>"
proof -
  have b: "Matcher2_add exampleEnv Matcher2_new adsBlocking = \<lparr>keywordByFilter_sc = [(''/ads^$script'', ''ads'')], simpleFiltersByKeyword = [],
      complexFiltersByKeyword = [(''ads'', Single ''/ads^$script'')],
      compiledPatternsByKeyword_sc = [], filterMapsByType_sc = []\<rparr>"
    using add_complex_first[of adsBlocking] by (simp add: adsBlocking_def)
  have w: "Matcher2_add exampleEnv Matcher2_new adsWhitelist = \<lparr>keywordByFilter_sc = [(''@@/ads^$script'', ''ads'')], simpleFiltersByKeyword = [],
      complexFiltersByKeyword = [(''ads'', Single ''@@/ads^$script'')],
      compiledPatternsByKeyword_sc = [], filterMapsByType_sc = []\<rparr>"
    using add_complex_first[of adsWhitelist] by (simp add: adsWhitelist_def)
  have t: "filter_type adsBlocking = Blocking" "filter_type adsWhitelist = Whitelist"
    by (simp_all add: adsBlocking_def adsWhitelist_def)
  show ?thesis
    by (simp add: CombinedMatcher_add_def CombinedMatcher_new_def Let_def t b w Cache_clear_def)
qed

lemma combined_specific_whitelist:
  "CombinedMatcher_add exampleEnv
     (CombinedMatcher_add exampleEnv CombinedMatcher_new adsBlockingOnDomain) adsWhitelist =
   \<lparr>blocking = \<lparr>keywordByFilter_sc = [(''/ads^$script,domain=a.com'', ''ads'')],
      simpleFiltersByKeyword = [],
      complexFiltersByKeyword = [(''ads'', Single ''/ads^$script,domain=a.com'')],
      compiledPatternsByKeyword_sc = [], filterMapsByType_sc = []\<rparr>,
    whitelist = \<lparr>keywordByFilter_sc = [(''@@/ads^$script'', ''ads'')], simpleFiltersByKeyword = [],
      complexFiltersByKeyword = [(''ads'', Single ''@@/ads^$script'')],
      compiledPatternsByKeyword_sc = [], filterMapsByType_sc = []\<rparr>,
    resultCache = []\<rparr>"
proof -
  have b: "Matcher2_add exampleEnv Matcher2_new adsBlockingOnDomain = \<lparr>keywordByFilter_sc = [(''/ads^$script,domain=a.com'', ''ads'')], simpleFiltersByKeyword = [],
      complexFiltersByKeyword = [(''ads'', Single ''/ads^$script,domain=a.com'')],
      compiledPatternsByKeyword_sc = [], filterMapsByType_sc = []\<rparr>"
    using add_complex_first[of adsBlockingOnDomain] by (simp add: adsBlockingOnDomain_def)
  have w: "Matcher2_add exampleEnv Matcher2_new adsWhitelist = \<lparr>keywordByFilter_sc = [(''@@/ads^$script'', ''ads'')], simpleFiltersByKeyword = [],
      complexFiltersByKeyword = [(''ads'', Single ''@@/ads^$script'')],
      compiledPatternsByKeyword_sc = [], filterMapsByType_sc = []\<rparr>"
    using add_complex_first[of adsWhitelist] by (simp add: adsWhitelist_def)
  have t: "filter_type adsBlockingOnDomain = Blocking" "filter_type adsWhitelist = Whitelist"
    by (simp_all add: adsBlockingOnDomain_def adsWhitelist_def)
  show ?thesis
    by (simp add: CombinedMatcher_add_def CombinedMatcher_new_def Let_def t b w Cache_clear_def)
qed

lemma matchInternal_complex_ads:
  assumes "simpleFiltersByKeyword (blocking C) = []" "complexFiltersByKeyword (blocking C) = [(''ads'', Single tb)]"
    "simpleFiltersByKeyword (whitelist C) = []" "complexFiltersByKeyword (whitelist C) = [(''ads'', Single tw)]"
    "tb \<noteq> ''''" "tw \<noteq> ''''"
  shows "fst (matchInternal exampleEnv C adsRequest 2 sitekey specificOnly) =
     (let blockingHit = fst (scanFilters exampleEnv adsRequest 2 sitekey specificOnly [tb] None);
          whitelistHit = (if blockingHit \<noteq> None
                          then fst (scanFilters exampleEnv adsRequest 2 sitekey False [tw] None)
                          else None)
      in case whitelistHit of Some w \<Rightarrow> Some w | None \<Rightarrow> blockingHit)"
proof -
  have b: "Matcher2_match exampleEnv (blocking C) adsRequest 2 sitekey specificOnly =
     (fst (scanFilters exampleEnv adsRequest 2 sitekey specificOnly [tb] None), blocking C)"
    using match_complex_ads[OF assms(1,2)] assms(5) by simp
  have w: "Matcher2_match exampleEnv (whitelist C) adsRequest 2 sitekey False =
     (fst (scanFilters exampleEnv adsRequest 2 sitekey False [tw] None), whitelist C)"
    using match_complex_ads[OF assms(3,4)] assms(6) by simp
  show ?thesis
    using b w
    by (simp add: matchInternal_def internalLoop_matchLoop Matcher2_match_def[symmetric]
        masks_example Let_def split: prod.splits)
qed

lemma request_example:
  "requestFrom exampleEnv (href adsRequest) (documentHostname adsRequest) = adsRequest"
  by (simp add: exampleEnv_def testEnv_def adsRequest_def toLowerCase_def toLowerChar_def upperLetters_def lowerLetters_def)

lemma match_not_cached:
  assumes "resultCache C = []"
  shows "fst (CombinedMatcher_match E C url typeMask docDomain sitekey specificOnly)
       = MatchValue (fst (matchInternal E C (requestFrom E url docDomain) typeMask sitekey
           specificOnly))"
  using assms
  by (cases "matchInternal E C (requestFrom E url docDomain) typeMask sitekey specificOnly")
     (simp add: CombinedMatcher_match_def Cache_get_def Let_def)

text \<open>
  Both a blocking and a whitelist filter held by the matcher match the request, yet with
  \<open>specificOnly\<close> the generic blocking filter is passed over, the type mask has no
  whitelisting type, so the whitelist is not looked at, and \<open>match\<close> returns \<open>null\<close>.
\<close>

theorem CombinedMatcher_precedence_counterexample:
  "CombinedMatcher_has (CombinedMatcher_add exampleEnv
        (CombinedMatcher_add exampleEnv CombinedMatcher_new adsBlocking) adsWhitelist) adsBlocking
   \<and> CombinedMatcher_has (CombinedMatcher_add exampleEnv
        (CombinedMatcher_add exampleEnv CombinedMatcher_new adsBlocking) adsWhitelist) adsWhitelist
   \<and> URLFilter_matches exampleEnv adsBlocking adsRequest 2 None = Some True
   \<and> URLFilter_matches exampleEnv adsWhitelist adsRequest 2 None = Some True
   \<and> fst (CombinedMatcher_match exampleEnv (CombinedMatcher_add exampleEnv
        (CombinedMatcher_add exampleEnv CombinedMatcher_new adsBlocking) adsWhitelist)
        (href adsRequest) 2 (documentHostname adsRequest) None True) = MatchValue None"
proof -
  let ?C = "CombinedMatcher_add exampleEnv
        (CombinedMatcher_add exampleEnv CombinedMatcher_new adsBlocking) adsWhitelist"
  have h: "CombinedMatcher_has ?C adsBlocking" "CombinedMatcher_has ?C adsWhitelist"
    unfolding combined_blocking_whitelist
    by (simp_all add: CombinedMatcher_has_def Matcher2_has_def adsBlocking_def adsWhitelist_def)
  have i: "fst (matchInternal exampleEnv ?C adsRequest 2 None True) = None"
    unfolding combined_blocking_whitelist
    by (subst matchInternal_complex_ads[where tb = "''/ads^$script''" and tw = "''@@/ads^$script''"])
       (simp_all add: fromText_examples generic_examples)
  have "fst (CombinedMatcher_match exampleEnv ?C (href adsRequest) 2 (documentHostname adsRequest)
      None True) = MatchValue None"
    using i by (subst match_not_cached) (simp_all add: combined_blocking_whitelist request_example)
  then show ?thesis using h matches_examples by simp
qed

text \<open>
  With \<open>specificOnly\<close> the CombinedMatcher returns a generic whitelist filter: the
  whitelist is always looked at without \<open>specificOnly\<close>.
\<close>

theorem specificOnly_counterexample:
  "isGeneric adsWhitelist
   \<and> fst (CombinedMatcher_match exampleEnv (CombinedMatcher_add exampleEnv
        (CombinedMatcher_add exampleEnv CombinedMatcher_new adsBlockingOnDomain) adsWhitelist)
        (href adsRequest) 2 (documentHostname adsRequest) None True)
       = MatchValue (Some adsWhitelist)"
proof -
  let ?C = "CombinedMatcher_add exampleEnv
        (CombinedMatcher_add exampleEnv CombinedMatcher_new adsBlockingOnDomain) adsWhitelist"
  have i: "fst (matchInternal exampleEnv ?C adsRequest 2 None True) = Some adsWhitelist"
    unfolding combined_specific_whitelist
    by (subst matchInternal_complex_ads[where tb = "''/ads^$script,domain=a.com''" and tw = "''@@/ads^$script''"])
       (simp_all add: fromText_examples generic_examples matchFilter_def matches_examples)
  have "fst (CombinedMatcher_match exampleEnv ?C (href adsRequest) 2 (documentHostname adsRequest)
      None True) = MatchValue (Some adsWhitelist)"
    using i by (subst match_not_cached) (simp_all add: combined_specific_whitelist request_example)
  then show ?thesis using generic_examples by simp
qed

text \<open>
  Two filters of one keyword that match the same request: \<open>match\<close> returns the one that
  was added first.
\<close>

theorem add_order_counterexample:
  "fst (Matcher2_match exampleEnv
         (Matcher2_add exampleEnv (Matcher2_add exampleEnv Matcher2_new adsBlocking) bannerBlocking)
         adsRequest 2 None False)
   \<noteq> fst (Matcher2_match exampleEnv
         (Matcher2_add exampleEnv (Matcher2_add exampleEnv Matcher2_new bannerBlocking) adsBlocking)
         adsRequest 2 None False)"
proof -
  have 1: "fst (Matcher2_match exampleEnv
         (Matcher2_add exampleEnv (Matcher2_add exampleEnv Matcher2_new adsBlocking) bannerBlocking)
         adsRequest 2 None False) = Some adsBlocking"
    unfolding add_ads_banner
    by (subst match_complex_ads[where b = "SetOf [''/ads^$script'', ''/ads/banner$script'']"])
       (simp_all add: fromText_examples matchFilter_def matches_examples)
  have 2: "fst (Matcher2_match exampleEnv
         (Matcher2_add exampleEnv (Matcher2_add exampleEnv Matcher2_new bannerBlocking) adsBlocking)
         adsRequest 2 None False) = Some bannerBlocking"
    unfolding add_banner_ads
    by (subst match_complex_ads[where b = "SetOf [''/ads/banner$script'', ''/ads^$script'']"])
       (simp_all add: fromText_examples matchFilter_def matches_examples)
  have "adsBlocking \<noteq> bannerBlocking" by (simp add: adsBlocking_def bannerBlocking_def)
  then show ?thesis using 1 2 by simp
qed

subsection \<open>The compiled patterns\<close>

lemma candidates_abb: "urlCandidates ''http://h/abb'' = [''http'', ''abb'', '''']"
  by (simp add: urlCandidates.simps isKeywordChar_def)

lemma regexp_simple: "isSimple backrefEnv regexpX" "isSimple backrefEnv regexpBackref"
  by (simp_all add: isSimple_def backrefEnv_def testEnv_def regexpX_def regexpBackref_def isGeneric_def)

lemma regexp_keyword: "Matcher2_findKeyword m regexpX = ''''" "Matcher2_findKeyword m regexpBackref = ''''"
  by (simp_all add: Matcher2_findKeyword_def findKeyword_with_def regexpX_def regexpBackref_def)

lemma regexp_texts:
  "filter_text regexpX = ''/(x)y/''"
  "filter_text regexpBackref = ''/(a)(b)'' @ [CHR 0x5C] @ ''2/''"
  by (simp_all add: regexpX_def regexpBackref_def backrefSource_def)

lemma add_backref_alone:
  "Matcher2_add backrefEnv Matcher2_new regexpBackref =
     \<lparr>keywordByFilter_sc = [(filter_text regexpBackref, '''')],
      simpleFiltersByKeyword = [('''', Single (filter_text regexpBackref))],
      complexFiltersByKeyword = [], compiledPatternsByKeyword_sc = [], filterMapsByType_sc = []\<rparr>"
  by (simp add: Matcher2_add_def Let_def regexp_keyword regexp_simple addFilterByKeyword_def
      dropCompiled_def) (simp add: Matcher2_new_def)

lemma add_x_backref:
  "Matcher2_add backrefEnv (Matcher2_add backrefEnv Matcher2_new regexpX) regexpBackref =
     \<lparr>keywordByFilter_sc = [(filter_text regexpX, ''''), (filter_text regexpBackref, '''')],
      simpleFiltersByKeyword = [('''', SetOf [filter_text regexpX, filter_text regexpBackref])],
      complexFiltersByKeyword = [], compiledPatternsByKeyword_sc = [], filterMapsByType_sc = []\<rparr>"
proof -
  have 1: "Matcher2_add backrefEnv Matcher2_new regexpX =
     \<lparr>keywordByFilter_sc = [(filter_text regexpX, '''')],
      simpleFiltersByKeyword = [('''', Single (filter_text regexpX))],
      complexFiltersByKeyword = [], compiledPatternsByKeyword_sc = [], filterMapsByType_sc = []\<rparr>"
    by (simp add: Matcher2_add_def Let_def regexp_keyword regexp_simple addFilterByKeyword_def
      dropCompiled_def) (simp add: Matcher2_new_def)
  have n: "filter_text regexpBackref \<noteq> filter_text regexpX" by (simp add: regexp_texts)
  show ?thesis
    unfolding 1 using n
    by (simp add: Matcher2_add_def Let_def regexp_keyword regexp_simple addFilterByKeyword_def
      dropCompiled_def)
qed

lemma fromText_backref:
  "fromText backrefEnv (filter_text regexpX) = regexpX"
  "fromText backrefEnv (filter_text regexpBackref) = regexpBackref"
  by (simp_all add: backrefEnv_def regexp_texts)

lemma masks_backref:
  "RESOURCE_TYPES backrefEnv = 16777215" "SPECIAL_TYPES backrefEnv = 2130706432"
  by (simp_all add: backrefEnv_def testEnv_def)

lemma matches_backref: "URLFilter_matches backrefEnv regexpBackref abbRequest m None = (if and 16777215 m = 0 then Some False else Some True)"
  by (simp add: URLFilter_matches_def URLFilter_matchesLocation_def URLFilter_regexp_def
      isActiveOnDomain_def regexpBackref_def abbRequest_def backrefEnv_def backrefSource_def
      contains_def)

lemma compile_both:
  "compilePatterns backrefEnv (SetOf [filter_text regexpX, filter_text regexpBackref])
     = Some \<lparr>caseSensitive = None, caseInsensitive = Some (''(x)y|'' @ backrefSource)\<rparr>"
proof -
  have v: "regexpValid backrefEnv s" for s by (simp add: backrefEnv_def testEnv_def)
  have p: "patternSource backrefEnv regexpX = ''(x)y''" "patternSource backrefEnv regexpBackref = backrefSource"
    by (simp_all add: patternSource_def regexpX_def regexpBackref_def)
  have c: "\<not> filter_matchCase regexpX" "\<not> filter_matchCase regexpBackref"
    by (simp_all add: regexpX_def regexpBackref_def)
  have f1: "filter filter_matchCase [regexpX, regexpBackref] = []" using c by simp
  have f2: "filter (\<lambda>f. \<not> filter_matchCase f) [regexpX, regexpBackref] = [regexpX, regexpBackref]"
    using c by simp
  have j: "joinSources [] = []" "joinSources [a, b] = a @ CHR 0x7C # b @ [CHR 0x7C]" for a b
    by (simp_all add: joinSources_def)
  show ?thesis
    unfolding compilePatterns_def COMPILE_PATTERNS_MAX_def Let_def
    by (simp add: fromText_backref f1 f2 j p v del: filter.simps)
qed

lemma compile_alone:
  "compilePatterns backrefEnv (Single (filter_text regexpBackref))
     = Some \<lparr>caseSensitive = None, caseInsensitive = Some backrefSource\<rparr>"
proof -
  have v: "regexpValid backrefEnv s" for s by (simp add: backrefEnv_def testEnv_def)
  have p: "patternSource backrefEnv regexpBackref = backrefSource"
    by (simp_all add: patternSource_def regexpBackref_def)
  have c: "\<not> filter_matchCase regexpBackref"
    by (simp_all add: regexpBackref_def)
  have f1: "filter filter_matchCase [regexpBackref] = []" using c by simp
  have f2: "filter (\<lambda>f. \<not> filter_matchCase f) [regexpBackref] = [regexpBackref]"
    using c by simp
  have j: "joinSources [] = []" "joinSources [a] = a @ [CHR 0x7C]" for a
    by (simp_all add: joinSources_def)
  show ?thesis
    unfolding compilePatterns_def COMPILE_PATTERNS_MAX_def Let_def
    by (simp add: fromText_backref f1 f2 j p v del: filter.simps)
qed

lemma test_both:
  "\<not> CompiledPatterns_test backrefEnv
      \<lparr>caseSensitive = None, caseInsensitive = Some (''(x)y|'' @ backrefSource)\<rparr> abbRequest"
  by (simp add: CompiledPatterns_test_def backrefEnv_def backrefSource_def abbRequest_def contains_def)

lemma test_alone:
  "CompiledPatterns_test backrefEnv
      \<lparr>caseSensitive = None, caseInsensitive = Some backrefSource\<rparr> abbRequest"
  by (simp add: CompiledPatterns_test_def backrefEnv_def backrefSource_def abbRequest_def contains_def)

lemma match_simple_blank:
  assumes "simpleFiltersByKeyword m = [('''', b)]" "complexFiltersByKeyword m = []"
    "compiledPatternsByKeyword_sc m = []" "truthyBucket (Some b)"
  shows "fst (Matcher2_match backrefEnv m abbRequest 2 None False) =
     (case compilePatterns backrefEnv b of
        None \<Rightarrow> fst (scanFilters backrefEnv abbRequest 16777215 None False (bucketList b) None)
      | Some c \<Rightarrow> if CompiledPatterns_test backrefEnv c abbRequest
          then fst (scanFilters backrefEnv abbRequest 16777215 None False (bucketList b) None)
          else None)"
proof -
  have c: "urlCandidates (lowerCaseHref abbRequest) = [''http'', ''abb'', '''']"
    by (simp add: abbRequest_def candidates_abb)
  have mk: "and (2::32 word) 16777215 \<noteq> 0" "and (2::32 word) 2130706432 = 0" by simp_all
  have x: "checkEntryMatchComplex backrefEnv m' k abbRequest 2 None False col = (None, col)"
    if "complexFiltersByKeyword m' = []" for k m' col
    using that by (simp add: checkEntryMatchComplex_def)
  have a: "checkEntryMatch backrefEnv m ''abb'' abbRequest 2 None False None = (None, None, m)"
    using assms(1,2) by (simp add: checkEntryMatch_def checkEntryMatchSimple_def masks_backref mk x)
  show ?thesis
    unfolding Matcher2_match_def c
    using assms a
    by (cases "scanFilters backrefEnv abbRequest 16777215 None False (bucketList b) None")
       (auto simp: isBadKeyword_def checkEntryMatch_def checkEntryMatchSimple_def
          checkEntryMatchSimpleQuickCheck_def masks_backref mk x Let_def
          split: option.splits prod.splits)
qed

lemma compilePatterns_too_many:
  "length xs > 100 \<Longrightarrow> compilePatterns E (SetOf xs) = None"
  by (simp add: compilePatterns_def COMPILE_PATTERNS_MAX_def)

lemma compilePatterns_invalid:
  assumes "compilePatterns E b = Some c" "caseSensitive c = Some s \<or> caseInsensitive c = Some s"
  shows "regexpValid E s"
  using assms
  by (auto simp: compilePatterns_def Let_def split: if_splits)

text \<open>
  C6. \<open>compilePatterns\<close> returns \<open>null\<close> for more than 100 filters and when a regular
  expression does not compile. The pre-check is not transparent: the matcher that holds
  the filters \<open>/(x)y/\<close> and \<open>/(a)(b)\2/\<close> compiles them to the alternation
  \<open>(x)y|(a)(b)\2\<close>, which does not match \<open>http://h/abb\<close>, so \<open>match\<close> returns
  \<open>null\<close> although the second filter matches the request; the matcher that holds the
  second filter alone returns it.
\<close>

theorem fast_reject_changes_result:
  "Matcher2_has (Matcher2_add backrefEnv (Matcher2_add backrefEnv Matcher2_new regexpX) regexpBackref)
     regexpBackref
   \<and> URLFilter_matches backrefEnv regexpBackref abbRequest 2 None = Some True
   \<and> fst (Matcher2_match backrefEnv
          (Matcher2_add backrefEnv (Matcher2_add backrefEnv Matcher2_new regexpX) regexpBackref)
          abbRequest 2 None False) = None
   \<and> fst (Matcher2_match backrefEnv (Matcher2_add backrefEnv Matcher2_new regexpBackref)
          abbRequest 2 None False) = Some regexpBackref"
proof -
  have h: "Matcher2_has (Matcher2_add backrefEnv (Matcher2_add backrefEnv Matcher2_new regexpX) regexpBackref)
     regexpBackref"
    unfolding add_x_backref by (simp add: Matcher2_has_def regexp_texts)
  have m: "URLFilter_matches backrefEnv regexpBackref abbRequest 2 None = Some True"
    by (simp add: matches_backref)
  have 1: "fst (Matcher2_match backrefEnv
          (Matcher2_add backrefEnv (Matcher2_add backrefEnv Matcher2_new regexpX) regexpBackref)
          abbRequest 2 None False) = None"
    unfolding add_x_backref
    by (subst match_simple_blank[where b = "SetOf [filter_text regexpX, filter_text regexpBackref]"])
       (simp_all add: compile_both test_both[simplified])
  have ne: "filter_text regexpBackref \<noteq> []" by (simp add: regexp_texts)
  have 2: "fst (Matcher2_match backrefEnv (Matcher2_add backrefEnv Matcher2_new regexpBackref)
          abbRequest 2 None False) = Some regexpBackref"
    unfolding add_backref_alone using ne
    by (subst match_simple_blank[where b = "Single (filter_text regexpBackref)"])
       (simp_all add: compile_alone test_alone[simplified] fromText_backref
          matchFilter_def matches_backref)
  show ?thesis using h m 1 2 by simp
qed

subsection \<open>The invariants of the matcher under add and remove\<close>

lemma map_of_addFilterByKeyword:
  "map_of (addFilterByKeyword t k m) k' = (if k' = k then Some (addB t (map_of m k)) else map_of m k')"
  by (auto simp: addFilterByKeyword_def update_conv' update_triv split: option.splits bucket.splits)

lemma map_of_removeFilterByKeyword:
  "map_of (removeFilterByKeyword t k m) k' = (if k' = k then removeB t (map_of m k) else map_of m k')"
  by (auto simp: removeFilterByKeyword_def update_conv' delete_conv' Let_def
      split: option.splits bucket.splits)

lemma addB_texts: "set (bucketList (addB t b)) = insert t (bucketTexts b)"
  by (cases "(t, b)" rule: addB.cases) auto

lemma removeB_texts: "bucketTexts (removeB t b) = bucketTexts b - {t}"
proof (cases "(t, b)" rule: removeB.cases)
  case (3 t' xs)
  have h: "length ys = 1 \<Longrightarrow> {hd ys} = set ys" for ys :: "string list"
    by (cases ys) auto
  have "bucketTexts (removeB t' (Some (SetOf xs))) = set (removeAll t' xs)"
    using h[of "removeAll t' xs"] by simp
  then show ?thesis using 3 by auto
qed auto

lemma addB_shape: "bucketShape b \<Longrightarrow> bucketShape (Some (addB t b))"
  by (cases "(t, b)" rule: addB.cases) auto

lemma removeB_shape: "bucketShape b \<Longrightarrow> bucketShape (removeB t b)"
proof (cases "(t, b)" rule: removeB.cases)
  case (3 t' xs)
  assume s: "bucketShape b"
  then have d: "distinct xs" "length xs \<ge> 2" using 3 by auto
  have "length (removeAll t' xs) \<ge> length xs - 1"
    using d(1) by (simp add: distinct_removeAll length_remove1 distinct_remove1_removeAll[symmetric])
  then show ?thesis using 3 d by (auto simp: distinct_removeAll)
qed auto

lemma addB_idem: "addB t (Some (addB t b)) = addB t b"
  by (cases "(t, b)" rule: addB.cases) auto

lemma removeB_idem: "removeB t (removeB t b) = removeB t b"
proof (cases "(t, b)" rule: removeB.cases)
  case (3 t' xs)
  have h: "length ys = 1 \<Longrightarrow> t' \<notin> set ys \<Longrightarrow> hd ys \<noteq> t'" for ys :: "string list"
    by (cases ys) auto
  show ?thesis using 3 h[of "removeAll t' xs"] by auto
qed auto

lemma removeB_addB:
  assumes "t \<notin> bucketTexts b" "bucketShape b"
  shows "removeB t (Some (addB t b)) = b"
  using assms by (cases "(t, b)" rule: addB.cases) auto

lemma update_absent': "map_of m k = None \<Longrightarrow> AList.update k v m = m @ [(k, v)]"
  by (induction m) (auto split: if_splits)

lemma delete_append_last': "map_of m k = None \<Longrightarrow> AList.delete k (m @ [(k, v)]) = m"
  by (induction m) (auto split: if_splits)

lemma remove_add_FilterByKeyword:
  assumes "t \<notin> bucketTexts (map_of m k)" "bucketShape (map_of m k)"
  shows "removeFilterByKeyword t k (addFilterByKeyword t k m) = m"
proof (cases "map_of m k")
  case None
  have a: "addFilterByKeyword t k m = m @ [(k, Single t)]"
    using None by (simp add: addFilterByKeyword_def update_absent')
  have "map_of (m @ [(k, Single t)]) k = Some (Single t)"
    using None by (simp add: map_add_def)
  then show ?thesis
    using None by (simp add: a removeFilterByKeyword_def delete_append_last')
next
  case (Some b)
  show ?thesis
  proof (cases b)
    case (Single s)
    then have a: "addFilterByKeyword t k m = AList.update k (SetOf [s, t]) m"
      using Some assms by (simp add: addFilterByKeyword_def)
    have "AList.update k (Single s) m = m"
      using Some Single by (simp add: update_triv)
    then show ?thesis
      using Some Single assms by (simp add: a removeFilterByKeyword_def update_conv')
  next
    case (SetOf xs)
    then have a: "addFilterByKeyword t k m = AList.update k (SetOf (xs @ [t])) m"
      using Some assms by (simp add: addFilterByKeyword_def)
    have "AList.update k (SetOf xs) m = m"
      using Some SetOf by (simp add: update_triv)
    then show ?thesis
      using Some SetOf assms by (simp add: a removeFilterByKeyword_def update_conv')
  qed
qed


lemma typeBucket_addToTypeMap:
  "typeBucket (addToTypeMap t k maps ty) ty' k' =
     (if ty' = ty \<and> k' = k then Some (addB t (typeBucket maps ty k)) else typeBucket maps ty' k')"
  by (auto simp: typeBucket_def addToTypeMap_def update_conv' map_of_addFilterByKeyword
      split: option.splits)

lemma typeBucket_removeFromTypeMap:
  "typeBucket (removeFromTypeMap t k maps ty) ty' k' =
     (if ty' = ty \<and> k' = k then removeB t (typeBucket maps ty k) else typeBucket maps ty' k')"
  by (auto simp: typeBucket_def removeFromTypeMap_def update_conv' map_of_removeFilterByKeyword
      split: option.splits)

lemma typeBucket_fold_add:
  "typeBucket (foldl (addToTypeMap t k) maps tys) ty' k' =
     (if ty' \<in> set tys \<and> k' = k then Some (addB t (typeBucket maps ty' k))
      else typeBucket maps ty' k')"
  by (induction tys arbitrary: maps) (auto simp: typeBucket_addToTypeMap addB_idem)

lemma typeBucket_fold_remove:
  "typeBucket (foldl (removeFromTypeMap t k) maps tys) ty' k' =
     (if ty' \<in> set tys \<and> k' = k then removeB t (typeBucket maps ty' k)
      else typeBucket maps ty' k')"
  by (induction tys arbitrary: maps) (auto simp: typeBucket_removeFromTypeMap removeB_idem)

lemma Matcher2_add_held:
  "map_of (keywordByFilter_sc m) (filter_text f) \<noteq> None \<Longrightarrow> Matcher2_add E m f = m"
  by (auto simp: Matcher2_add_def)

lemma delete_nil_length: "(if 0 < length xs then AList.delete k xs else xs) = AList.delete k xs"
  by (cases xs) auto

lemma Matcher2_add_fresh:
  assumes "map_of (keywordByFilter_sc m) (filter_text f) = None"
  shows "keywordByFilter_sc (Matcher2_add E m f) =
           AList.update (filter_text f) (Matcher2_findKeyword m f) (keywordByFilter_sc m)"
    and "simpleFiltersByKeyword (Matcher2_add E m f) =
           (if isSimple E f
            then addFilterByKeyword (filter_text f) (Matcher2_findKeyword m f) (simpleFiltersByKeyword m)
            else simpleFiltersByKeyword m)"
    and "complexFiltersByKeyword (Matcher2_add E m f) =
           (if isSimple E f then complexFiltersByKeyword m
            else addFilterByKeyword (filter_text f) (Matcher2_findKeyword m f)
                   (complexFiltersByKeyword m))"
    and "compiledPatternsByKeyword_sc (Matcher2_add E m f) =
           (if isSimple E f
            then AList.delete (Matcher2_findKeyword m f) (compiledPatternsByKeyword_sc m)
            else compiledPatternsByKeyword_sc m)"
    and "typeLookup (Matcher2_add E m f) ty k =
           (if \<not> isSimple E f
               \<and> ty \<in> set (enumerateTypes (filter_contentType f) (SPECIAL_TYPES E))
               \<and> k = Matcher2_findKeyword m f
            then Some (addB (filter_text f) (typeLookup m ty k))
            else typeLookup m ty k)"
  using assms
  by (auto simp: Matcher2_add_def Let_def dropCompiled_def typeLookup_def typeBucket_fold_add
      delete_nil_length)

lemma Matcher2_remove_absent:
  "map_of (keywordByFilter_sc m) (filter_text f) = None \<Longrightarrow> Matcher2_remove E m f = m"
  by (auto simp: Matcher2_remove_def)

lemma Matcher2_remove_held:
  assumes "map_of (keywordByFilter_sc m) (filter_text f) = Some kw"
  shows "keywordByFilter_sc (Matcher2_remove E m f) =
           AList.delete (filter_text f) (keywordByFilter_sc m)"
    and "simpleFiltersByKeyword (Matcher2_remove E m f) =
           (if isSimple E f
            then removeFilterByKeyword (filter_text f) kw (simpleFiltersByKeyword m)
            else simpleFiltersByKeyword m)"
    and "complexFiltersByKeyword (Matcher2_remove E m f) =
           (if isSimple E f then complexFiltersByKeyword m
            else removeFilterByKeyword (filter_text f) kw (complexFiltersByKeyword m))"
    and "compiledPatternsByKeyword_sc (Matcher2_remove E m f) =
           (if isSimple E f then AList.delete kw (compiledPatternsByKeyword_sc m)
            else compiledPatternsByKeyword_sc m)"
    and "typeLookup (Matcher2_remove E m f) ty k =
           (if \<not> isSimple E f
               \<and> ty \<in> set (enumerateTypes (filter_contentType f) (SPECIAL_TYPES E))
               \<and> k = kw
            then removeB (filter_text f) (typeLookup m ty k)
            else typeLookup m ty k)"
  using assms
  by (auto simp: Matcher2_remove_def Let_def dropCompiled_def typeLookup_def
      typeBucket_fold_remove delete_nil_length)

lemma wfm_add:
  assumes w: "wfm E m" and c: "canonical E f"
  shows "wfm E (Matcher2_add E m f)"
proof (cases "map_of (keywordByFilter_sc m) (filter_text f)")
  case (Some k)
  then show ?thesis using w by (simp add: Matcher2_add_held)
next
  case None
  note fr = Matcher2_add_fresh[OF None, of E]
  have cf: "fromText E (filter_text f) = f" using c by (simp add: canonical_def)
  show ?thesis
    using w None cf unfolding wfm_def
    by (auto simp: fr map_of_addFilterByKeyword addB_texts addB_shape update_conv'
        split: if_splits)
qed

lemma wfmD_simple:
  "wfm E m \<Longrightarrow> t \<in> bucketTexts (map_of (simpleFiltersByKeyword m) k) \<Longrightarrow>
     map_of (keywordByFilter_sc m) t = Some k \<and> isSimple E (fromText E t)"
  by (simp add: wfm_def)

lemma wfmD_complex:
  "wfm E m \<Longrightarrow> t \<in> bucketTexts (map_of (complexFiltersByKeyword m) k) \<Longrightarrow>
     map_of (keywordByFilter_sc m) t = Some k \<and> \<not> isSimple E (fromText E t)"
  by (simp add: wfm_def)

lemma wfmD_typed:
  "wfm E m \<Longrightarrow> t \<in> bucketTexts (typeLookup m ty k) \<Longrightarrow>
     map_of (keywordByFilter_sc m) t = Some k \<and> \<not> isSimple E (fromText E t)
     \<and> ty \<in> set (enumerateTypes (filter_contentType (fromText E t)) (SPECIAL_TYPES E))"
  by (simp add: wfm_def)

lemma wfm_remove:
  assumes w: "wfm E m" and c: "canonical E f"
  shows "wfm E (Matcher2_remove E m f)"
proof (cases "map_of (keywordByFilter_sc m) (filter_text f)")
  case None
  then show ?thesis using w by (simp add: Matcher2_remove_absent)
next
  case (Some kw)
  note hd = Matcher2_remove_held[OF Some, of E]
  have cf: "fromText E (filter_text f) = f" using c by (simp add: canonical_def)
  have A: "filter_text f \<in> bucketTexts (map_of (simpleFiltersByKeyword m) k) \<Longrightarrow>
             isSimple E f \<and> k = kw" for k
    using wfmD_simple[OF w, of "filter_text f" k] Some cf by auto
  have B: "filter_text f \<in> bucketTexts (map_of (complexFiltersByKeyword m) k) \<Longrightarrow>
             \<not> isSimple E f \<and> k = kw" for k
    using wfmD_complex[OF w, of "filter_text f" k] Some cf by auto
  have C: "filter_text f \<in> bucketTexts (typeLookup m ty k) \<Longrightarrow>
             \<not> isSimple E f \<and> k = kw
             \<and> ty \<in> set (enumerateTypes (filter_contentType f) (SPECIAL_TYPES E))" for ty k
    using wfmD_typed[OF w, of "filter_text f" ty k] Some cf by auto
  show ?thesis
    using w A B C unfolding wfm_def
    by (auto simp: hd map_of_removeFilterByKeyword removeB_texts removeB_shape delete_conv'
        split: if_splits)
qed

lemma holdsType_add:
  assumes "holdsType E ty m" "canonical E f" "filter_type f = ty"
  shows "holdsType E ty (Matcher2_add E m f)"
proof (cases "map_of (keywordByFilter_sc m) (filter_text f)")
  case (Some k)
  then show ?thesis using assms by (simp add: Matcher2_add_held)
next
  case None
  show ?thesis
    using assms unfolding holdsType_def canonical_def
    by (auto simp: Matcher2_add_fresh(1)[OF None] update_conv' split: if_splits)
qed

lemma holdsType_remove:
  assumes "holdsType E ty m"
  shows "holdsType E ty (Matcher2_remove E m f)"
proof (cases "map_of (keywordByFilter_sc m) (filter_text f)")
  case None
  then show ?thesis using assms by (simp add: Matcher2_remove_absent)
next
  case (Some kw)
  show ?thesis
    using assms unfolding holdsType_def
    by (auto simp: Matcher2_remove_held(1)[OF Some] delete_conv' split: if_splits)
qed

lemma coherent_add:
  assumes "coherent E m"
  shows "coherent E (Matcher2_add E m f)"
proof (cases "map_of (keywordByFilter_sc m) (filter_text f)")
  case (Some k)
  then show ?thesis using assms by (simp add: Matcher2_add_held)
next
  case None
  note fr = Matcher2_add_fresh[OF None, of E]
  show ?thesis
    using assms unfolding coherent_def
    by (auto simp: fr map_of_addFilterByKeyword delete_conv' split: if_splits)
qed

lemma coherent_remove:
  assumes "coherent E m"
  shows "coherent E (Matcher2_remove E m f)"
proof (cases "map_of (keywordByFilter_sc m) (filter_text f)")
  case None
  then show ?thesis using assms by (simp add: Matcher2_remove_absent)
next
  case (Some kw)
  note hd = Matcher2_remove_held[OF Some, of E]
  show ?thesis
    using assms unfolding coherent_def
    by (auto simp: hd map_of_removeFilterByKeyword delete_conv' split: if_splits)
qed

lemma findKeyword_equivalent:
  "equivalent m1 m2 \<Longrightarrow> Matcher2_findKeyword m1 f = Matcher2_findKeyword m2 f"
  by (simp add: equivalent_def Matcher2_findKeyword_def)

lemma equivalent_refl: "equivalent m m"
  by (simp add: equivalent_def)

lemma equivalent_sym: "equivalent m1 m2 \<Longrightarrow> equivalent m2 m1"
  by (simp add: equivalent_def)

lemma equivalent_trans: "equivalent m1 m2 \<Longrightarrow> equivalent m2 m3 \<Longrightarrow> equivalent m1 m3"
  by (simp add: equivalent_def)

lemma equivalent_add:
  assumes e: "equivalent m1 m2"
  shows "equivalent (Matcher2_add E m1 f) (Matcher2_add E m2 f)"
proof (cases "map_of (keywordByFilter_sc m1) (filter_text f)")
  case (Some k)
  then have "map_of (keywordByFilter_sc m2) (filter_text f) \<noteq> None"
    using e by (simp add: equivalent_def)
  then show ?thesis using Some e by (simp add: Matcher2_add_held)
next
  case None
  then have None2: "map_of (keywordByFilter_sc m2) (filter_text f) = None"
    using e by (simp add: equivalent_def)
  note f1 = Matcher2_add_fresh[OF None, of E] and f2 = Matcher2_add_fresh[OF None2, of E]
  have k: "Matcher2_findKeyword m1 f = Matcher2_findKeyword m2 f"
    by (rule findKeyword_equivalent[OF e])
  have "typeLookup (Matcher2_add E m1 f) ty kk = typeLookup (Matcher2_add E m2 f) ty kk" for ty kk
    using e k by (simp add: f1(5) f2(5) equivalent_def)
  then have "typeLookup (Matcher2_add E m1 f) = typeLookup (Matcher2_add E m2 f)"
    by (intro ext)
  then show ?thesis
    using e k by (simp add: equivalent_def f1(1,2,3) f2(1,2,3))
qed

lemma equivalent_remove:
  assumes e: "equivalent m1 m2"
  shows "equivalent (Matcher2_remove E m1 f) (Matcher2_remove E m2 f)"
proof (cases "map_of (keywordByFilter_sc m1) (filter_text f)")
  case None
  then have "map_of (keywordByFilter_sc m2) (filter_text f) = None"
    using e by (simp add: equivalent_def)
  then show ?thesis using None e by (simp add: Matcher2_remove_absent)
next
  case (Some kw)
  then have Some2: "map_of (keywordByFilter_sc m2) (filter_text f) = Some kw"
    using e by (simp add: equivalent_def)
  note h1 = Matcher2_remove_held[OF Some, of E] and h2 = Matcher2_remove_held[OF Some2, of E]
  have "typeLookup (Matcher2_remove E m1 f) ty kk = typeLookup (Matcher2_remove E m2 f) ty kk"
    for ty kk
    using e by (simp add: h1(5) h2(5) equivalent_def)
  then have "typeLookup (Matcher2_remove E m1 f) = typeLookup (Matcher2_remove E m2 f)"
    by (intro ext)
  then show ?thesis
    using e by (simp add: equivalent_def h1(1,2,3) h2(1,2,3))
qed

lemma wfm_equivalent: "equivalent m1 m2 \<Longrightarrow> wfm E m1 = wfm E m2"
  by (simp add: equivalent_def wfm_def)

lemma holdsType_equivalent: "equivalent m1 m2 \<Longrightarrow> holdsType E ty m1 = holdsType E ty m2"
  by (simp add: equivalent_def holdsType_def)

lemma has_equivalent: "equivalent m1 m2 \<Longrightarrow> Matcher2_has m1 f = Matcher2_has m2 f"
  by (simp add: equivalent_def Matcher2_has_def)

lemma not_has_after_remove: "\<not> Matcher2_has (Matcher2_remove E m f) f"
proof (cases "map_of (keywordByFilter_sc m) (filter_text f)")
  case None
  then show ?thesis by (simp add: Matcher2_remove_absent Matcher2_has_def)
next
  case (Some kw)
  show ?thesis by (simp add: Matcher2_has_def Matcher2_remove_held(1)[OF Some] delete_conv')
qed

lemma has_add: "Matcher2_has (Matcher2_add E m g) f = (Matcher2_has m f \<or> filter_text g = filter_text f)"
proof (cases "map_of (keywordByFilter_sc m) (filter_text g)")
  case None
  show ?thesis
    by (auto simp: Matcher2_has_def Matcher2_add_fresh(1)[OF None] update_conv' None)
next
  case (Some k)
  then show ?thesis by (auto simp: Matcher2_has_def Matcher2_add_held)
qed

lemma remove_add_equivalent:
  assumes w: "wfm E m" and nh: "\<not> Matcher2_has m f"
  shows "equivalent (Matcher2_remove E (Matcher2_add E m f) f) m"
proof -
  let ?t = "filter_text f" and ?k = "Matcher2_findKeyword m f"
  have None: "map_of (keywordByFilter_sc m) ?t = None"
    using nh by (simp add: Matcher2_has_def)
  note fr = Matcher2_add_fresh[OF None, of E]
  have Some: "map_of (keywordByFilter_sc (Matcher2_add E m f)) ?t = Some ?k"
    by (simp add: fr(1) update_conv')
  note hd = Matcher2_remove_held[OF Some, of E]
  have ns: "?t \<notin> bucketTexts (map_of (simpleFiltersByKeyword m) k)" for k
    using wfmD_simple[OF w, of ?t k] None by auto
  have nc: "?t \<notin> bucketTexts (map_of (complexFiltersByKeyword m) k)" for k
    using wfmD_complex[OF w, of ?t k] None by auto
  have nt: "?t \<notin> bucketTexts (typeLookup m ty k)" for ty k
    using wfmD_typed[OF w, of ?t ty k] None by auto
  have sh: "bucketShape (map_of (simpleFiltersByKeyword m) k)"
    "bucketShape (map_of (complexFiltersByKeyword m) k)"
    "bucketShape (typeLookup m ty k)" for ty k
    using w by (simp_all add: wfm_def)
  have k1: "keywordByFilter_sc (Matcher2_remove E (Matcher2_add E m f) f) = keywordByFilter_sc m"
    by (simp add: hd(1) fr(1) update_absent'[OF None] delete_append_last'[OF None])
  have k2: "simpleFiltersByKeyword (Matcher2_remove E (Matcher2_add E m f) f)
              = simpleFiltersByKeyword m"
    by (simp add: hd(2) fr(2) remove_add_FilterByKeyword[OF ns sh(1)])
  have k3: "complexFiltersByKeyword (Matcher2_remove E (Matcher2_add E m f) f)
              = complexFiltersByKeyword m"
    by (simp add: hd(3) fr(3) remove_add_FilterByKeyword[OF nc sh(2)])
  have "typeLookup (Matcher2_remove E (Matcher2_add E m f) f) ty kk = typeLookup m ty kk" for ty kk
    by (simp add: hd(5) fr(5) removeB_addB[OF nt sh(3)])
  then have k4: "typeLookup (Matcher2_remove E (Matcher2_add E m f) f) = typeLookup m"
    by (intro ext)
  show ?thesis by (simp add: equivalent_def k1 k2 k3 k4)
qed

subsection \<open>Lookups do not depend on the stored compiled patterns\<close>

lemma quickCheck_value:
  assumes "coherent E m" "map_of (simpleFiltersByKeyword m) k = Some b"
  shows "fst (checkEntryMatchSimpleQuickCheck E m k r b) =
           (case compilePatterns E b of None \<Rightarrow> True | Some c \<Rightarrow> CompiledPatterns_test E c r)"
proof (cases "map_of (compiledPatternsByKeyword_sc m) k")
  case None
  then show ?thesis by (simp add: checkEntryMatchSimpleQuickCheck_def Let_def)
next
  case (Some c)
  then have "c = compilePatterns E b" using assms by (auto simp: coherent_def)
  then show ?thesis using Some by (simp add: checkEntryMatchSimpleQuickCheck_def)
qed

lemma quickCheck_state:
  assumes "coherent E m" "map_of (simpleFiltersByKeyword m) k = Some b"
  shows "coherent E (snd (checkEntryMatchSimpleQuickCheck E m k r b))"
    and "equivalent (snd (checkEntryMatchSimpleQuickCheck E m k r b)) m"
  using assms
  by (auto simp: checkEntryMatchSimpleQuickCheck_def Let_def coherent_def equivalent_def
      typeLookup_def update_conv' split: option.splits if_splits)

lemma checkSimple_outcome:
  assumes "coherent E m"
  shows "outcome (checkEntryMatchSimple E m k r col) =
     (case map_of (simpleFiltersByKeyword m) k of
        None \<Rightarrow> (None, col)
      | Some b \<Rightarrow>
          if \<not> truthyBucket (Some b) then (None, col)
          else if (case compilePatterns E b of None \<Rightarrow> True
                   | Some c \<Rightarrow> CompiledPatterns_test E c r)
          then scanFilters E r (RESOURCE_TYPES E) None False (bucketList b) col
          else (None, col))"
proof (cases "map_of (simpleFiltersByKeyword m) k")
  case None
  then show ?thesis by (simp add: checkEntryMatchSimple_def outcome_def)
next
  case (Some b)
  obtain ok m' where q: "checkEntryMatchSimpleQuickCheck E m k r b = (ok, m')"
    by (cases "checkEntryMatchSimpleQuickCheck E m k r b")
  have ok: "ok = (case compilePatterns E b of None \<Rightarrow> True
                  | Some c \<Rightarrow> CompiledPatterns_test E c r)"
    using quickCheck_value[OF assms Some, of r] q by simp
  show ?thesis
    using Some q ok
    by (auto simp: checkEntryMatchSimple_def outcome_def Let_def split: prod.splits)
qed

lemma checkSimple_state:
  assumes "coherent E m"
  shows "coherent E (snd (snd (checkEntryMatchSimple E m k r col)))"
    and "equivalent (snd (snd (checkEntryMatchSimple E m k r col))) m"
proof -
  have "coherent E (snd (snd (checkEntryMatchSimple E m k r col)))
        \<and> equivalent (snd (snd (checkEntryMatchSimple E m k r col))) m"
  proof (cases "map_of (simpleFiltersByKeyword m) k")
    case None
    then show ?thesis using assms by (simp add: checkEntryMatchSimple_def equivalent_refl)
  next
    case (Some b)
    obtain ok m' where q: "checkEntryMatchSimpleQuickCheck E m k r b = (ok, m')"
      by (cases "checkEntryMatchSimpleQuickCheck E m k r b")
    have "coherent E m'" "equivalent m' m"
      using quickCheck_state[OF assms Some, of r] q by simp_all
    then show ?thesis
      using Some q assms
      by (auto simp: checkEntryMatchSimple_def Let_def equivalent_refl split: prod.splits)
  qed
  then show "coherent E (snd (snd (checkEntryMatchSimple E m k r col)))"
    and "equivalent (snd (snd (checkEntryMatchSimple E m k r col))) m" by simp_all
qed

lemma forType_lookup:
  "checkEntryMatchForType E m k r tm sk so col =
     (case typeLookup m tm k of
        None \<Rightarrow> (None, col)
      | Some b \<Rightarrow> if \<not> truthyBucket (Some b) then (None, col)
                  else scanFilters E r tm sk so (bucketList b) col)"
  by (simp add: checkEntryMatchForType_def typeLookup_def typeBucket_def Let_def
      split: option.splits)

lemma forType_equivalent:
  "equivalent m1 m2 \<Longrightarrow>
     checkEntryMatchForType E m1 k r tm sk so col = checkEntryMatchForType E m2 k r tm sk so col"
  by (simp add: forType_lookup equivalent_def)

lemma complex_equivalent:
  "equivalent m1 m2 \<Longrightarrow>
     checkEntryMatchComplex E m1 k r tm sk so col = checkEntryMatchComplex E m2 k r tm sk so col"
  by (simp add: checkEntryMatchComplex_def equivalent_def)

lemma checkSimple_cong:
  assumes "coherent E m1" "coherent E m2" "equivalent m1 m2"
  shows "outcome (checkEntryMatchSimple E m1 k r col) = outcome (checkEntryMatchSimple E m2 k r col)"
  using assms(3) by (simp add: checkSimple_outcome[OF assms(1)] checkSimple_outcome[OF assms(2)]
      equivalent_def)

lemma check_state:
  assumes "coherent E m"
  shows "coherent E (snd (snd (checkEntryMatch E m k r tm sk so col)))"
    and "equivalent (snd (snd (checkEntryMatch E m k r tm sk so col))) m"
proof -
  define x where "x = (if \<not> so \<and> and tm (RESOURCE_TYPES E) \<noteq> 0
            then checkEntryMatchSimple E m k r col else (None, col, m))"
  have x: "coherent E (snd (snd x))" "equivalent (snd (snd x)) m"
    using checkSimple_state[OF assms, of k r col] assms
    by (auto simp: x_def equivalent_refl)
  have "snd (snd (checkEntryMatch E m k r tm sk so col)) = snd (snd x)"
    unfolding checkEntryMatch_def x_def[symmetric]
    by (cases x) (auto split: option.splits prod.splits)
  then show "coherent E (snd (snd (checkEntryMatch E m k r tm sk so col)))"
    and "equivalent (snd (snd (checkEntryMatch E m k r tm sk so col))) m"
    using x by simp_all
qed

lemma check_cong:
  assumes c1: "coherent E m1" and c2: "coherent E m2" and e: "equivalent m1 m2"
  shows "outcome (checkEntryMatch E m1 k r tm sk so col) = outcome (checkEntryMatch E m2 k r tm sk so col)"
proof -
  define x1 where "x1 = (if \<not> so \<and> and tm (RESOURCE_TYPES E) \<noteq> 0
            then checkEntryMatchSimple E m1 k r col else (None, col, m1))"
  define x2 where "x2 = (if \<not> so \<and> and tm (RESOURCE_TYPES E) \<noteq> 0
            then checkEntryMatchSimple E m2 k r col else (None, col, m2))"
  have o: "outcome x1 = outcome x2"
    using checkSimple_cong[OF c1 c2 e, of k r col] by (simp add: x1_def x2_def outcome_def)
  have e1: "equivalent (snd (snd x1)) m1"
    using checkSimple_state(2)[OF c1, of k r col] by (simp add: x1_def equivalent_refl)
  have e2: "equivalent (snd (snd x2)) m2"
    using checkSimple_state(2)[OF c2, of k r col] by (simp add: x2_def equivalent_refl)
  have e12: "equivalent (snd (snd x1)) (snd (snd x2))"
    using e1 e2 e by (meson equivalent_sym equivalent_trans)
  obtain a1 b1 n1 where p1: "x1 = (a1, b1, n1)" by (cases x1)
  obtain a2 b2 n2 where p2: "x2 = (a2, b2, n2)" by (cases x2)
  have ab: "a1 = a2" "b1 = b2" using o p1 p2 by (simp_all add: outcome_def)
  have en: "equivalent n1 n2" using e12 p1 p2 by simp
  show ?thesis
    unfolding checkEntryMatch_def x1_def[symmetric] x2_def[symmetric] p1 p2
    using ab forType_equivalent[OF en, of E k r tm sk so b2]
      complex_equivalent[OF en, of E k r tm sk so b2]
    by (auto simp: outcome_def split: option.splits prod.splits)
qed

lemma matchLoop_state:
  assumes "coherent E m"
  shows "coherent E (snd (matchLoop E m r tm sk so cs))
         \<and> equivalent (snd (matchLoop E m r tm sk so cs)) m"
  using assms
proof (induction cs arbitrary: m)
  case Nil
  then show ?case by (simp add: equivalent_refl)
next
  case (Cons c cs)
  show ?case
  proof (cases "isBadKeyword c")
    case True
    then show ?thesis using Cons by simp
  next
    case False
    obtain a b m' where x: "checkEntryMatch E m c r tm sk so None = (a, b, m')"
      by (cases "checkEntryMatch E m c r tm sk so None")
    have s: "coherent E m'" "equivalent m' m"
      using check_state[OF Cons.prems, of c r tm sk so None] x by simp_all
    show ?thesis
    proof (cases a)
      case None
      then show ?thesis
        using False x Cons.IH[OF s(1)] s(2) by (auto intro: equivalent_trans)
    next
      case (Some f)
      then show ?thesis using False x s by simp
    qed
  qed
qed

lemma matchLoop_cong:
  assumes "coherent E m1" "coherent E m2" "equivalent m1 m2"
  shows "fst (matchLoop E m1 r tm sk so cs) = fst (matchLoop E m2 r tm sk so cs)"
  using assms
proof (induction cs arbitrary: m1 m2)
  case Nil
  then show ?case by simp
next
  case (Cons c cs)
  show ?case
  proof (cases "isBadKeyword c")
    case True
    then show ?thesis using Cons by simp
  next
    case False
    obtain a1 b1 n1 where x1: "checkEntryMatch E m1 c r tm sk so None = (a1, b1, n1)"
      by (cases "checkEntryMatch E m1 c r tm sk so None")
    obtain a2 b2 n2 where x2: "checkEntryMatch E m2 c r tm sk so None = (a2, b2, n2)"
      by (cases "checkEntryMatch E m2 c r tm sk so None")
    have a: "a1 = a2"
      using check_cong[OF Cons.prems, of c r tm sk so None] x1 x2 by (simp add: outcome_def)
    have s1: "coherent E n1" "equivalent n1 m1"
      using check_state[OF Cons.prems(1), of c r tm sk so None] x1 by simp_all
    have s2: "coherent E n2" "equivalent n2 m2"
      using check_state[OF Cons.prems(2), of c r tm sk so None] x2 by simp_all
    have e: "equivalent n1 n2"
      using s1(2) s2(2) Cons.prems(3) by (meson equivalent_sym equivalent_trans)
    show ?thesis
    proof (cases a2)
      case None
      then show ?thesis using False x1 x2 a Cons.IH[OF s1(1) s2(1) e] by simp
    next
      case (Some f)
      then show ?thesis using False x1 x2 a by simp
    qed
  qed
qed

lemma match_state:
  assumes "coherent E m"
  shows "coherent E (snd (Matcher2_match E m r tm sk so))"
    and "equivalent (snd (Matcher2_match E m r tm sk so)) m"
  using matchLoop_state[OF assms] by (simp_all add: Matcher2_match_def)

lemma match_cong:
  assumes "coherent E m1" "coherent E m2" "equivalent m1 m2"
  shows "fst (Matcher2_match E m1 r tm sk so) = fst (Matcher2_match E m2 r tm sk so)"
  using matchLoop_cong[OF assms] by (simp add: Matcher2_match_def)

lemma matchInternal_scans:
  "fst (matchInternal E C r tm sk so) =
     (let blockingHit = (if and tm (not (WHITELISTING_TYPES E)) \<noteq> 0
                         then fst (Matcher2_match E (blocking C) r tm sk so) else None);
          whitelistHit = (if blockingHit \<noteq> None \<or> and tm (WHITELISTING_TYPES E) \<noteq> 0
                          then fst (Matcher2_match E (whitelist C) r tm sk False) else None)
      in case whitelistHit of Some w \<Rightarrow> Some w | None \<Rightarrow> blockingHit)"
proof -
  obtain bh b' where b: "matchLoop E (blocking C) r tm sk so (urlCandidates (lowerCaseHref r))
                          = (bh, b')"
    by (cases "matchLoop E (blocking C) r tm sk so (urlCandidates (lowerCaseHref r))")
  obtain wh w' where w: "matchLoop E (whitelist C) r tm sk False (urlCandidates (lowerCaseHref r))
                          = (wh, w')"
    by (cases "matchLoop E (whitelist C) r tm sk False (urlCandidates (lowerCaseHref r))")
  show ?thesis
    by (cases wh; cases bh)
      (simp_all add: matchInternal_def Matcher2_match_def internalLoop_matchLoop Let_def b w)
qed

lemma matchInternal_state:
  assumes "coherent E (blocking C)" "coherent E (whitelist C)"
  shows "coherent E (blocking (snd (matchInternal E C r tm sk so)))"
    and "coherent E (whitelist (snd (matchInternal E C r tm sk so)))"
    and "equivalentC (snd (matchInternal E C r tm sk so)) C"
    and "resultCache (snd (matchInternal E C r tm sk so)) = resultCache C"
  using assms
    matchLoop_state[OF assms(1), of r tm sk so "urlCandidates (lowerCaseHref r)"]
    matchLoop_state[OF assms(2), of r tm sk False "urlCandidates (lowerCaseHref r)"]
  by (auto simp: matchInternal_def internalLoop_matchLoop Let_def equivalentC_def
      equivalent_refl split: prod.splits)

lemma matchInternal_cong:
  assumes "coherent E (blocking C1)" "coherent E (whitelist C1)"
    "coherent E (blocking C2)" "coherent E (whitelist C2)" "equivalentC C1 C2"
  shows "fst (matchInternal E C1 r tm sk so) = fst (matchInternal E C2 r tm sk so)"
proof -
  have b: "fst (Matcher2_match E (blocking C1) r tm sk so)
           = fst (Matcher2_match E (blocking C2) r tm sk so)"
    using assms by (intro match_cong) (simp_all add: equivalentC_def)
  have w: "fst (Matcher2_match E (whitelist C1) r tm sk False)
           = fst (Matcher2_match E (whitelist C2) r tm sk False)"
    using assms by (intro match_cong) (simp_all add: equivalentC_def)
  show ?thesis unfolding matchInternal_scans b w ..
qed

lemma searchLoop_state:
  assumes "coherent E b" "coherent E w"
  shows "coherent E (fst (snd (searchLoop E b w r tm sk so sb sw hb hw cs)))
         \<and> coherent E (snd (snd (searchLoop E b w r tm sk so sb sw hb hw cs)))
         \<and> equivalent (fst (snd (searchLoop E b w r tm sk so sb sw hb hw cs))) b
         \<and> equivalent (snd (snd (searchLoop E b w r tm sk so sb sw hb hw cs))) w"
  using assms
proof (induction cs arbitrary: b w hb hw)
  case Nil
  then show ?case by (simp add: equivalent_refl)
next
  case (Cons c cs)
  show ?case
  proof (cases "isBadKeyword c")
    case True
    then show ?thesis using Cons by simp
  next
    case False
    define x where "x = (if sb then checkEntryMatch E b c r tm sk so hb else (None, hb, b))"
    define y where "y = (if sw then checkEntryMatch E w c r tm sk False hw else (None, hw, w))"
    obtain r1 hb' b' where x: "x = (r1, hb', b')" by (cases x)
    obtain r2 hw' w' where y: "y = (r2, hw', w')" by (cases y)
    have sb: "coherent E b'" "equivalent b' b"
      using check_state[OF Cons.prems(1), of c r tm sk so hb] x Cons.prems(1)
      by (auto simp: x_def equivalent_refl split: if_splits)
    have sw: "coherent E w'" "equivalent w' w"
      using check_state[OF Cons.prems(2), of c r tm sk False hw] y Cons.prems(2)
      by (auto simp: y_def equivalent_refl split: if_splits)
    have step: "searchLoop E b w r tm sk so sb sw hb hw (c # cs)
                = searchLoop E b' w' r tm sk so sb sw hb' hw' cs"
      using False x y by (simp add: x_def[symmetric] y_def[symmetric])
    show ?thesis
      unfolding step using Cons.IH[OF sb(1) sw(1), of hb' hw'] sb(2) sw(2)
      by (auto intro: equivalent_trans)
  qed
qed

lemma searchLoop_cong:
  assumes "coherent E b1" "coherent E w1" "coherent E b2" "coherent E w2"
    "equivalent b1 b2" "equivalent w1 w2"
  shows "fst (searchLoop E b1 w1 r tm sk so sb sw hb hw cs)
         = fst (searchLoop E b2 w2 r tm sk so sb sw hb hw cs)"
  using assms
proof (induction cs arbitrary: b1 w1 b2 w2 hb hw)
  case Nil
  then show ?case by simp
next
  case (Cons c cs)
  show ?case
  proof (cases "isBadKeyword c")
    case True
    then show ?thesis using Cons by simp
  next
    case False
    define x1 where "x1 = (if sb then checkEntryMatch E b1 c r tm sk so hb else (None, hb, b1))"
    define y1 where "y1 = (if sw then checkEntryMatch E w1 c r tm sk False hw else (None, hw, w1))"
    define x2 where "x2 = (if sb then checkEntryMatch E b2 c r tm sk so hb else (None, hb, b2))"
    define y2 where "y2 = (if sw then checkEntryMatch E w2 c r tm sk False hw else (None, hw, w2))"
    obtain r1 hb1 b1' where x1: "x1 = (r1, hb1, b1')" by (cases x1)
    obtain q1 hw1 w1' where y1: "y1 = (q1, hw1, w1')" by (cases y1)
    obtain r2 hb2 b2' where x2: "x2 = (r2, hb2, b2')" by (cases x2)
    obtain q2 hw2 w2' where y2: "y2 = (q2, hw2, w2')" by (cases y2)
    have ox: "outcome x1 = outcome x2"
      using check_cong[OF Cons.prems(1) Cons.prems(3) Cons.prems(5), of c r tm sk so hb]
      by (simp add: x1_def x2_def outcome_def)
    have oy: "outcome y1 = outcome y2"
      using check_cong[OF Cons.prems(2) Cons.prems(4) Cons.prems(6), of c r tm sk False hw]
      by (simp add: y1_def y2_def outcome_def)
    have h: "hb1 = hb2" "hw1 = hw2" using ox oy x1 x2 y1 y2 by (simp_all add: outcome_def)
    have sb1: "coherent E b1'" "equivalent b1' b1"
      using check_state[OF Cons.prems(1), of c r tm sk so hb] x1 Cons.prems(1)
      by (auto simp: x1_def equivalent_refl split: if_splits)
    have sb2: "coherent E b2'" "equivalent b2' b2"
      using check_state[OF Cons.prems(3), of c r tm sk so hb] x2 Cons.prems(3)
      by (auto simp: x2_def equivalent_refl split: if_splits)
    have sw1: "coherent E w1'" "equivalent w1' w1"
      using check_state[OF Cons.prems(2), of c r tm sk False hw] y1 Cons.prems(2)
      by (auto simp: y1_def equivalent_refl split: if_splits)
    have sw2: "coherent E w2'" "equivalent w2' w2"
      using check_state[OF Cons.prems(4), of c r tm sk False hw] y2 Cons.prems(4)
      by (auto simp: y2_def equivalent_refl split: if_splits)
    have eb: "equivalent b1' b2'"
      using sb1(2) sb2(2) Cons.prems(5) by (meson equivalent_sym equivalent_trans)
    have ew: "equivalent w1' w2'"
      using sw1(2) sw2(2) Cons.prems(6) by (meson equivalent_sym equivalent_trans)
    have step1: "searchLoop E b1 w1 r tm sk so sb sw hb hw (c # cs)
                = searchLoop E b1' w1' r tm sk so sb sw hb1 hw1 cs"
      using False x1 y1 by (simp add: x1_def[symmetric] y1_def[symmetric])
    have step2: "searchLoop E b2 w2 r tm sk so sb sw hb hw (c # cs)
                = searchLoop E b2' w2' r tm sk so sb sw hb2 hw2 cs"
      using False x2 y2 by (simp add: x2_def[symmetric] y2_def[symmetric])
    show ?thesis
      unfolding step1 step2 h
      by (rule Cons.IH[OF sb1(1) sw1(1) sb2(1) sw2(1) eb ew])
  qed
qed

lemma searchInternal_state:
  assumes "coherent E (blocking C)" "coherent E (whitelist C)"
  shows "coherent E (blocking (snd (searchInternal E C r tm sk so ft)))"
    and "coherent E (whitelist (snd (searchInternal E C r tm sk so ft)))"
    and "equivalentC (snd (searchInternal E C r tm sk so ft)) C"
    and "resultCache (snd (searchInternal E C r tm sk so ft)) = resultCache C"
proof -
  let ?sb = "(ft = ''blocking'' \<or> ft = ''all'') \<and> and tm (not (WHITELISTING_TYPES E)) \<noteq> 0"
  let ?sw = "ft = ''whitelist'' \<or> ft = ''all''"
  let ?hb = "if ft = ''blocking'' \<or> ft = ''all'' then Some [] else None"
  let ?hw = "if ?sw then Some [] else None"
  let ?x = "searchLoop E (blocking C) (whitelist C) r tm sk so ?sb ?sw ?hb ?hw
              (urlCandidates (lowerCaseHref r))"
  obtain hb' hw' b' w' where x: "?x = ((hb', hw'), b', w')"
    by (cases ?x) auto
  have s: "coherent E b'" "coherent E w'" "equivalent b' (blocking C)" "equivalent w' (whitelist C)"
    using searchLoop_state[OF assms, of r tm sk so ?sb ?sw ?hb ?hw
        "urlCandidates (lowerCaseHref r)"] x by simp_all
  have r: "snd (searchInternal E C r tm sk so ft) = C\<lparr>blocking := b', whitelist := w'\<rparr>"
    using x by (simp add: searchInternal_def Let_def)
  show "coherent E (blocking (snd (searchInternal E C r tm sk so ft)))"
    and "coherent E (whitelist (snd (searchInternal E C r tm sk so ft)))"
    and "equivalentC (snd (searchInternal E C r tm sk so ft)) C"
    and "resultCache (snd (searchInternal E C r tm sk so ft)) = resultCache C"
    using s by (simp_all add: r equivalentC_def)
qed

lemma searchInternal_cong:
  assumes "coherent E (blocking C1)" "coherent E (whitelist C1)"
    "coherent E (blocking C2)" "coherent E (whitelist C2)" "equivalentC C1 C2"
  shows "fst (searchInternal E C1 r tm sk so ft) = fst (searchInternal E C2 r tm sk so ft)"
proof -
  define L where "L = (\<lambda>b w. searchLoop E b w r tm sk so
       ((ft = ''blocking'' \<or> ft = ''all'') \<and> and tm (not (WHITELISTING_TYPES E)) \<noteq> 0)
       (ft = ''whitelist'' \<or> ft = ''all'')
       (if ft = ''blocking'' \<or> ft = ''all'' then Some [] else None)
       (if ft = ''whitelist'' \<or> ft = ''all'' then Some [] else None)
       (urlCandidates (lowerCaseHref r)))"
  have d: "searchInternal E C r tm sk so ft =
             (case L (blocking C) (whitelist C) of
                ((hb', hw'), b', w') \<Rightarrow>
                  (\<lparr>hits_blocking = hb', hits_whitelist = hw'\<rparr>,
                   C\<lparr>blocking := b', whitelist := w'\<rparr>))" for C
    unfolding searchInternal_def Let_def L_def ..
  have e: "equivalent (blocking C1) (blocking C2)" "equivalent (whitelist C1) (whitelist C2)"
    using assms(5) by (simp_all add: equivalentC_def)
  have "fst (L (blocking C1) (whitelist C1)) = fst (L (blocking C2) (whitelist C2))"
    unfolding L_def by (rule searchLoop_cong[OF assms(1) assms(2) assms(3) assms(4) e])
  then show ?thesis
    unfolding d by (auto split: prod.splits)
qed

subsection \<open>The combined matcher: equivalent states\<close>

lemma equivalentC_refl: "equivalentC C C"
  by (simp add: equivalentC_def equivalent_refl)

lemma equivalentC_sym: "equivalentC C1 C2 \<Longrightarrow> equivalentC C2 C1"
  by (simp add: equivalentC_def equivalent_sym)

lemma equivalentC_trans: "equivalentC C1 C2 \<Longrightarrow> equivalentC C2 C3 \<Longrightarrow> equivalentC C1 C3"
  by (auto simp: equivalentC_def intro: equivalent_trans)

lemma expected_cong:
  assumes "coherent E (blocking C1)" "coherent E (whitelist C1)"
    "coherent E (blocking C2)" "coherent E (whitelist C2)" "equivalentC C1 C2"
  shows "expected E C1 q = expected E C2 q"
  by (cases q) (simp_all add: matchInternal_cong[OF assms] searchInternal_cong[OF assms])

subsection \<open>The keys of the result cache\<close>

lemma digit_plain:
  assumes "n < 10"
  shows "''0123456789'' ! n \<noteq> CHR '' ''"
proof -
  have "''0123456789'' ! n \<in> set ''0123456789''" using assms by (intro nth_mem) simp
  then show ?thesis by auto
qed

lemma digit_inj:
  assumes "n < 10" "m < 10" "''0123456789'' ! n = ''0123456789'' ! m"
  shows "n = m"
proof -
  have "distinct ''0123456789''" by simp
  then show ?thesis using assms nth_eq_iff_index_eq[of "''0123456789''" n m] by simp
qed

lemma showNat_nonempty: "showNat n \<noteq> []"
  by (subst showNat.simps) simp

lemma showNat_plain: "plain (showNat n)"
proof (induction n rule: showNat.induct)
  case (1 n)
  show ?case
  proof (cases "n < 10")
    case True
    then show ?thesis using digit_plain[of n] by (subst showNat.simps) (simp add: plain_def)
  next
    case False
    have "n mod 10 < 10" by simp
    then show ?thesis
      using False 1[OF False] digit_plain[of "n mod 10"]
      by (subst showNat.simps) (simp add: plain_def)
  qed
qed

lemma showNat_inj: "showNat n = showNat m \<Longrightarrow> n = m"
proof (induction n arbitrary: m rule: showNat.induct)
  case (1 n)
  show ?case
  proof (cases "n < 10")
    case True
    note n = True
    show ?thesis
    proof (cases "m < 10")
      case True
      then show ?thesis
        using n "1.prems" digit_inj[of n m]
        by (simp add: showNat.simps[of n] showNat.simps[of m])
    next
      case False
      have "length (showNat m) \<ge> 2"
        using False showNat_nonempty[of "m div 10"]
        by (subst showNat.simps) (simp add: Suc_le_eq)
      moreover have "length (showNat n) = 1" using n by (subst showNat.simps) simp
      ultimately show ?thesis using "1.prems" by simp
    qed
  next
    case False
    note n = False
    show ?thesis
    proof (cases "m < 10")
      case True
      have "length (showNat n) \<ge> 2"
        using n showNat_nonempty[of "n div 10"]
        by (subst showNat.simps) (simp add: Suc_le_eq)
      moreover have "length (showNat m) = 1" using True by (subst showNat.simps) simp
      ultimately show ?thesis using "1.prems" by simp
    next
      case False
      have e: "showNat (n div 10) @ [''0123456789'' ! (n mod 10)]
               = showNat (m div 10) @ [''0123456789'' ! (m mod 10)]"
        using n False "1.prems" by (simp add: showNat.simps[of n] showNat.simps[of m])
      then have a: "showNat (n div 10) = showNat (m div 10)"
        and b: "''0123456789'' ! (n mod 10) = ''0123456789'' ! (m mod 10)" by simp_all
      have d: "n div 10 = m div 10" using "1.IH"[OF n a] .
      have r: "n mod 10 = m mod 10" using digit_inj[OF _ _ b] by simp
      show ?thesis using d r by (metis div_mult_mod_eq)
    qed
  qed
qed

lemma numberToString_plain: "plain (numberToString w)"
  by (simp add: numberToString_def showNat_plain)

lemma numberToString_inj: "numberToString v = numberToString w \<Longrightarrow> v = w"
proof -
  assume "numberToString v = numberToString w"
  then have "unat v = unat w" by (simp add: numberToString_def showNat_inj)
  then show "v = w" by (rule word_unat_eq_iff[THEN iffD2])
qed

lemma nullableToString_plain: "plainOption x \<Longrightarrow> plain (nullableToString x)"
  by (cases x) (simp_all add: plainOption_def nullableToString_def plain_def)

lemma nullableToString_inj:
  "plainOption x \<Longrightarrow> plainOption y \<Longrightarrow> nullableToString x = nullableToString y \<Longrightarrow> x = y"
  by (cases x; cases y) (auto simp: plainOption_def nullableToString_def)

lemma booleanToString_plain: "plain (booleanToString b)"
  by (simp add: booleanToString_def plain_def)

lemma booleanToString_inj: "booleanToString a = booleanToString b \<Longrightarrow> a = b"
  by (cases a; cases b) (simp_all add: booleanToString_def)

lemma split_at_space:
  assumes "plain a" "plain b" "a @ CHR '' '' # r = b @ CHR '' '' # s"
  shows "a = b \<and> r = s"
  using assms
proof (induction a arbitrary: b)
  case Nil
  then show ?case by (cases b) (auto simp: plain_def)
next
  case (Cons x xs)
  show ?case
  proof (cases b)
    case Nil
    then show ?thesis using Cons.prems by (auto simp: plain_def)
  next
    case (Cons y ys)
    have "plain xs" "plain ys" using Cons.prems Cons by (simp_all add: plain_def)
    moreover have "xs @ CHR '' '' # r = ys @ CHR '' '' # s" "x = y" using Cons.prems Cons by simp_all
    ultimately show ?thesis using Cons.IH[of ys] Cons by simp
  qed
qed

lemma plain_no_space: "plain a \<Longrightarrow> filter (\<lambda>c. c = CHR '' '') a = []"
  by (auto simp: plain_def filter_empty_conv)

lemma matchKey_spaces:
  assumes "plain u" "plainOption d" "plainOption sk"
  shows "length (filter (\<lambda>c. c = CHR '' '') (matchKey u tm d sk so)) = 4"
  using assms
  by (simp add: matchKey_def plain_no_space numberToString_plain nullableToString_plain
      booleanToString_plain)

lemma searchKey_spaces:
  assumes "plain u" "plainOption d" "plainOption sk" "plain ft"
  shows "length (filter (\<lambda>c. c = CHR '' '') (searchKey u tm d sk so ft)) = 6"
  using assms
  by (simp add: searchKey_def plain_no_space numberToString_plain nullableToString_plain
      booleanToString_plain)

lemma matchKey_inj:
  assumes "plain u" "plainOption d" "plainOption sk" "plain u'" "plainOption d'" "plainOption sk'"
    and "matchKey u tm d sk so = matchKey u' tm' d' sk' so'"
  shows "u = u' \<and> tm = tm' \<and> d = d' \<and> sk = sk' \<and> so = so'"
proof -
  have e: "u @ CHR '' '' # (numberToString tm @ CHR '' '' # (nullableToString d @ CHR '' '' #
              (nullableToString sk @ CHR '' '' # booleanToString so)))
         = u' @ CHR '' '' # (numberToString tm' @ CHR '' '' # (nullableToString d' @ CHR '' '' #
              (nullableToString sk' @ CHR '' '' # booleanToString so')))"
    using assms(7) by (simp add: matchKey_def)
  from split_at_space[OF assms(1) assms(4) e]
  have 1: "u = u'" and e1: "numberToString tm @ CHR '' '' # (nullableToString d @ CHR '' '' #
              (nullableToString sk @ CHR '' '' # booleanToString so))
         = numberToString tm' @ CHR '' '' # (nullableToString d' @ CHR '' '' #
              (nullableToString sk' @ CHR '' '' # booleanToString so'))" by simp_all
  from split_at_space[OF numberToString_plain numberToString_plain e1]
  have 2: "numberToString tm = numberToString tm'"
    and e2: "nullableToString d @ CHR '' '' # (nullableToString sk @ CHR '' '' # booleanToString so)
         = nullableToString d' @ CHR '' '' # (nullableToString sk' @ CHR '' '' # booleanToString so')"
    by simp_all
  from split_at_space[OF nullableToString_plain[OF assms(2)] nullableToString_plain[OF assms(5)] e2]
  have 3: "nullableToString d = nullableToString d'"
    and e3: "nullableToString sk @ CHR '' '' # booleanToString so
         = nullableToString sk' @ CHR '' '' # booleanToString so'"
    by simp_all
  from split_at_space[OF nullableToString_plain[OF assms(3)] nullableToString_plain[OF assms(6)] e3]
  have 4: "nullableToString sk = nullableToString sk'"
    and 5: "booleanToString so = booleanToString so'" by simp_all
  show ?thesis
    using 1 numberToString_inj[OF 2] nullableToString_inj[OF assms(2) assms(5) 3]
      nullableToString_inj[OF assms(3) assms(6) 4] booleanToString_inj[OF 5] by simp
qed

lemma searchKey_inj:
  assumes "plain u" "plainOption d" "plainOption sk" "plain ft"
    "plain u'" "plainOption d'" "plainOption sk'" "plain ft'"
    and "searchKey u tm d sk so ft = searchKey u' tm' d' sk' so' ft'"
  shows "u = u' \<and> tm = tm' \<and> d = d' \<and> sk = sk' \<and> so = so' \<and> ft = ft'"
proof -
  have e: "u @ CHR '' '' # (numberToString tm @ CHR '' '' # (nullableToString d @ CHR '' '' #
              (nullableToString sk @ CHR '' '' # (booleanToString so @ CHR '' '' # ft))))
         = u' @ CHR '' '' # (numberToString tm' @ CHR '' '' # (nullableToString d' @ CHR '' '' #
              (nullableToString sk' @ CHR '' '' # (booleanToString so' @ CHR '' '' # ft'))))"
    using assms(9) by (simp add: searchKey_def)
  from split_at_space[OF assms(1) assms(5) e]
  have 1: "u = u'" and e1: "numberToString tm @ CHR '' '' # (nullableToString d @ CHR '' '' #
              (nullableToString sk @ CHR '' '' # (booleanToString so @ CHR '' '' # ft)))
         = numberToString tm' @ CHR '' '' # (nullableToString d' @ CHR '' '' #
              (nullableToString sk' @ CHR '' '' # (booleanToString so' @ CHR '' '' # ft')))"
    by simp_all
  from split_at_space[OF numberToString_plain numberToString_plain e1]
  have 2: "numberToString tm = numberToString tm'"
    and e2: "nullableToString d @ CHR '' '' # (nullableToString sk @ CHR '' '' #
               (booleanToString so @ CHR '' '' # ft))
         = nullableToString d' @ CHR '' '' # (nullableToString sk' @ CHR '' '' #
               (booleanToString so' @ CHR '' '' # ft'))"
    by simp_all
  from split_at_space[OF nullableToString_plain[OF assms(2)] nullableToString_plain[OF assms(6)] e2]
  have 3: "nullableToString d = nullableToString d'"
    and e3: "nullableToString sk @ CHR '' '' # (booleanToString so @ CHR '' '' # ft)
         = nullableToString sk' @ CHR '' '' # (booleanToString so' @ CHR '' '' # ft')"
    by simp_all
  from split_at_space[OF nullableToString_plain[OF assms(3)] nullableToString_plain[OF assms(7)] e3]
  have 4: "nullableToString sk = nullableToString sk'"
    and e4: "booleanToString so @ CHR '' '' # ft = booleanToString so' @ CHR '' '' # ft'"
    by simp_all
  from split_at_space[OF booleanToString_plain booleanToString_plain e4]
  have 5: "booleanToString so = booleanToString so'" and 6: "ft = ft'" by simp_all
  show ?thesis
    using 1 6 numberToString_inj[OF 2] nullableToString_inj[OF assms(2) assms(6) 3]
      nullableToString_inj[OF assms(3) assms(7) 4] booleanToString_inj[OF 5] by simp
qed

lemma keyOf_inj:
  assumes "plainQuery q" "plainQuery q'" "keyOf q = keyOf q'"
  shows "q = q'"
proof (cases q)
  case (MatchQuery u tm d sk so)
  note q = MatchQuery
  show ?thesis
  proof (cases q')
    case (MatchQuery u' tm' d' sk' so')
    then show ?thesis
      using assms q matchKey_inj[of u d sk u' d' sk' tm so tm' so'] by simp
  next
    case (SearchQuery u' tm' d' sk' so' ft')
    then show ?thesis
      using assms q matchKey_spaces[of u d sk tm so] searchKey_spaces[of u' d' sk' ft' tm' so']
      by simp
  qed
next
  case (SearchQuery u tm d sk so ft)
  note q = SearchQuery
  show ?thesis
  proof (cases q')
    case (MatchQuery u' tm' d' sk' so')
    then show ?thesis
      using assms q matchKey_spaces[of u' d' sk' tm' so'] searchKey_spaces[of u d sk ft tm so]
      by simp
  next
    case (SearchQuery u' tm' d' sk' so' ft')
    then show ?thesis
      using assms q searchKey_inj[of u d sk ft u' d' sk' ft' tm so tm' so'] by simp
  qed
qed

subsection \<open>The result cache\<close>

lemma map_of_tl:
  assumes "distinct (map fst c)" "map_of (tl c) k = Some v"
  shows "map_of c k = Some v"
proof (cases c)
  case Nil
  then show ?thesis using assms by simp
next
  case (Cons p rest)
  have "(k, v) \<in> set rest" using assms(2) Cons by (auto dest: map_of_SomeD)
  then have "k \<in> set (map fst rest)" by force
  moreover have "fst p \<notin> set (map fst rest)" using assms(1) Cons by simp
  ultimately have "k \<noteq> fst p" by blast
  then show ?thesis using assms(2) Cons by (cases p) auto
qed

lemma distinct_delete_keys: "distinct (map fst c) \<Longrightarrow> distinct (map fst (AList.delete k c))"
  by (rule distinct_delete)

lemma key_not_in_delete: "k \<notin> fst ` set (AList.delete k c)"
  by (induction c) auto

lemma Cache_get_value: "fst (Cache_get c k) = map_of c k"
  by (simp add: Cache_get_def split: option.splits)

lemma Cache_get_lookup: "map_of (snd (Cache_get c k)) k' = map_of c k'"
proof (cases "map_of c k")
  case None
  then show ?thesis by (simp add: Cache_get_def)
next
  case (Some v)
  have "map_of (AList.delete k c @ [(k, v)]) k' = map_of c k'"
    using Some by (cases "k' = k") (simp_all add: map_add_def delete_conv' split: option.splits)
  then show ?thesis using Some by (simp add: Cache_get_def)
qed

lemma distinct_snoc_key:
  assumes "distinct (map fst c)" "k \<notin> fst ` set c"
  shows "distinct (map fst (c @ [(k, v)]))"
  using assms by simp

lemma Cache_get_distinct:
  assumes "distinct (map fst c)"
  shows "distinct (map fst (snd (Cache_get c k)))"
proof (cases "map_of c k")
  case None
  then show ?thesis using assms by (simp add: Cache_get_def)
next
  case (Some v)
  show ?thesis
    using Some distinct_snoc_key[OF distinct_delete_keys[OF assms, of k] key_not_in_delete, of v]
    by (simp add: Cache_get_def)
qed

lemma Cache_set_distinct:
  assumes "distinct (map fst c)"
  shows "distinct (map fst (Cache_set c k v))"
proof -
  let ?o = "AList.delete k c"
  have d: "distinct (map fst ?o)" by (rule distinct_delete_keys[OF assms])
  have n: "k \<notin> fst ` set ?o" by (rule key_not_in_delete)
  have d2: "distinct (map fst (tl ?o))" using d by (simp add: map_tl distinct_tl)
  have n2: "k \<notin> fst ` set (tl ?o)" using n by (cases ?o) auto
  show ?thesis
    using distinct_snoc_key[OF d n, of v] distinct_snoc_key[OF d2 n2, of v]
    by (simp add: Cache_set_def Let_def)
qed

lemma Cache_set_lookup:
  assumes "distinct (map fst c)" "map_of (Cache_set c k v) k' = Some v'"
  shows "(k' = k \<and> v' = v) \<or> map_of c k' = Some v'"
proof (cases "k' = k")
  case True
  let ?o = "AList.delete k c"
  have n: "k \<notin> fst ` set ?o" by (rule key_not_in_delete)
  have n2: "k \<notin> fst ` set (tl ?o)" using n by (cases ?o) auto
  have "map_of (if 10000 \<le> length ?o then tl ?o else ?o) k = None"
    using n n2 by (simp add: map_of_eq_None_iff)
  then show ?thesis using assms(2) True by (simp add: Cache_set_def Let_def map_add_def)
next
  case False
  let ?o = "AList.delete k c"
  have d: "distinct (map fst ?o)" by (rule distinct_delete_keys[OF assms(1)])
  have "map_of (if 10000 \<le> length ?o then tl ?o else ?o) k' = Some v'"
    using assms(2) False
    by (auto simp: Cache_set_def Let_def map_add_def split: if_splits option.splits)
  then have "map_of ?o k' = Some v'"
    using map_of_tl[OF d, of k' v'] by (simp split: if_splits)
  then show ?thesis using False by (simp add: delete_conv')
qed

subsection \<open>The invariant of the combined matcher\<close>

lemma inv_parts:
  assumes "CombinedMatcher_inv E C"
  shows "wfm E (blocking C)" "wfm E (whitelist C)"
    "coherent E (blocking C)" "coherent E (whitelist C)"
    "holdsType E Blocking (blocking C)" "holdsType E Whitelist (whitelist C)"
    "cacheCoherent E C"
  using assms by (simp_all add: CombinedMatcher_inv_def)

lemma inv_cache:
  assumes i: "CombinedMatcher_inv E C"
    and c: "coherent E (blocking C')" "coherent E (whitelist C')"
    and e: "equivalentC C' C"
    and d: "distinct (map fst (resultCache C'))"
    and l: "\<And>key v. map_of (resultCache C') key = Some v \<Longrightarrow>
              \<exists>q. plainQuery q \<and> keyOf q = key \<and> v = expected E C q"
  shows "CombinedMatcher_inv E C'"
proof -
  note p = inv_parts[OF i]
  have eb: "equivalent (blocking C') (blocking C)" and ew: "equivalent (whitelist C') (whitelist C)"
    using e by (simp_all add: equivalentC_def)
  have ex: "expected E C' q = expected E C q" for q
    by (rule expected_cong[OF c p(3) p(4) e])
  have cc: "cacheCoherent E C'"
    unfolding cacheCoherent_def using d l by (auto simp: ex)
  show ?thesis
    using p c cc wfm_equivalent[OF eb, of E] wfm_equivalent[OF ew, of E]
      holdsType_equivalent[OF eb, of E Blocking] holdsType_equivalent[OF ew, of E Whitelist]
    by (simp add: CombinedMatcher_inv_def)
qed

lemma inv_touch:
  assumes i: "CombinedMatcher_inv E C"
  shows "CombinedMatcher_inv E (C\<lparr>resultCache := snd (Cache_get (resultCache C) k)\<rparr>)"
proof (rule inv_cache[OF i])
  note p = inv_parts[OF i]
  show "coherent E (blocking (C\<lparr>resultCache := snd (Cache_get (resultCache C) k)\<rparr>))"
    "coherent E (whitelist (C\<lparr>resultCache := snd (Cache_get (resultCache C) k)\<rparr>))"
    using p by simp_all
  show "equivalentC (C\<lparr>resultCache := snd (Cache_get (resultCache C) k)\<rparr>) C"
    by (simp add: equivalentC_def equivalent_refl)
  show "distinct (map fst (resultCache (C\<lparr>resultCache := snd (Cache_get (resultCache C) k)\<rparr>)))"
    using p(7) by (simp add: cacheCoherent_def Cache_get_distinct)
  show "\<exists>q. plainQuery q \<and> keyOf q = key \<and> v = expected E C q"
    if "map_of (resultCache (C\<lparr>resultCache := snd (Cache_get (resultCache C) k)\<rparr>)) key = Some v"
    for key v
    using that p(7) by (simp add: Cache_get_lookup cacheCoherent_def)
qed

lemma inv_store:
  assumes i: "CombinedMatcher_inv E C"
    and c: "coherent E (blocking C')" "coherent E (whitelist C')"
    and e: "equivalentC C' C"
    and r: "resultCache C' = resultCache C"
    and q: "plainQuery q"
  shows "CombinedMatcher_inv E
           (C'\<lparr>resultCache := Cache_set (resultCache C') (keyOf q) (expected E C q)\<rparr>)"
proof (rule inv_cache[OF i])
  let ?C = "C'\<lparr>resultCache := Cache_set (resultCache C') (keyOf q) (expected E C q)\<rparr>"
  note p = inv_parts[OF i]
  have d: "distinct (map fst (resultCache C))" using p(7) by (simp add: cacheCoherent_def)
  show "coherent E (blocking ?C)" "coherent E (whitelist ?C)" using c by simp_all
  show "equivalentC ?C C" using e by (simp add: equivalentC_def)
  show "distinct (map fst (resultCache ?C))" using Cache_set_distinct[OF d] by (simp add: r)
  show "\<exists>q'. plainQuery q' \<and> keyOf q' = key \<and> v = expected E C q'"
    if "map_of (resultCache ?C) key = Some v" for key v
  proof -
    have "map_of (Cache_set (resultCache C) (keyOf q) (expected E C q)) key = Some v"
      using that by (simp add: r)
    from Cache_set_lookup[OF d this]
    show ?thesis using q p(7) by (auto simp: cacheCoherent_def)
  qed
qed

lemma cached_value:
  assumes i: "CombinedMatcher_inv E C" and q: "plainQuery q"
    and h: "map_of (resultCache C) (keyOf q) = Some v"
  shows "v = expected E C q"
proof -
  obtain q' where q': "plainQuery q'" "keyOf q' = keyOf q" "v = expected E C q'"
    using inv_parts(7)[OF i] h unfolding cacheCoherent_def by blast
  have "q' = q" by (rule keyOf_inj[OF q'(1) q q'(2)])
  then show ?thesis using q'(3) by simp
qed

lemma CombinedMatcher_match_inv:
  assumes i: "CombinedMatcher_inv E C" and q: "plainQuery (MatchQuery u tm d sk so)"
  shows "CombinedMatcher_inv E (snd (CombinedMatcher_match E C u tm d sk so))"
    and "equivalentC (snd (CombinedMatcher_match E C u tm d sk so)) C"
    and "fst (CombinedMatcher_match E C u tm d sk so) = expected E C (MatchQuery u tm d sk so)"
proof -
  note p = inv_parts[OF i]
  let ?q = "MatchQuery u tm d sk so"
  let ?key = "matchKey u tm d sk so"
  have k: "keyOf ?q = ?key" by simp
  have "CombinedMatcher_inv E (snd (CombinedMatcher_match E C u tm d sk so))
        \<and> equivalentC (snd (CombinedMatcher_match E C u tm d sk so)) C
        \<and> fst (CombinedMatcher_match E C u tm d sk so) = expected E C ?q"
  proof (cases "map_of (resultCache C) ?key")
    case (Some v)
    have v: "v = expected E C ?q" using cached_value[OF i q] Some by simp
    have g: "Cache_get (resultCache C) ?key = (Some v, snd (Cache_get (resultCache C) ?key))"
      using Some Cache_get_value[of "resultCache C" ?key]
      by (cases "Cache_get (resultCache C) ?key") simp
    have r: "CombinedMatcher_match E C u tm d sk so
             = (v, C\<lparr>resultCache := snd (Cache_get (resultCache C) ?key)\<rparr>)"
      unfolding CombinedMatcher_match_def Let_def by (subst g) simp
    show ?thesis
      using inv_touch[OF i, of ?key] v by (simp add: r equivalentC_def equivalent_refl)
  next
    case None
    have g: "Cache_get (resultCache C) ?key = (None, resultCache C)"
      using None by (simp add: Cache_get_def)
    obtain res C' where x: "matchInternal E C (requestFrom E u d) tm sk so = (res, C')"
      by (cases "matchInternal E C (requestFrom E u d) tm sk so")
    note s = matchInternal_state[OF p(3) p(4), of "requestFrom E u d" tm sk so, unfolded x, simplified]
    have v: "MatchValue res = expected E C ?q" using x by simp
    have r: "CombinedMatcher_match E C u tm d sk so
             = (MatchValue res, C'\<lparr>resultCache := Cache_set (resultCache C') ?key (MatchValue res)\<rparr>)"
      unfolding CombinedMatcher_match_def Let_def by (subst g) (simp add: x)
    have "equivalentC (C'\<lparr>resultCache := Cache_set (resultCache C') ?key (MatchValue res)\<rparr>) C"
      using s(3) by (simp add: equivalentC_def)
    then show ?thesis
      using inv_store[OF i s(1) s(2) s(3) s(4) q] v by (simp add: r)
  qed
  then show "CombinedMatcher_inv E (snd (CombinedMatcher_match E C u tm d sk so))"
    and "equivalentC (snd (CombinedMatcher_match E C u tm d sk so)) C"
    and "fst (CombinedMatcher_match E C u tm d sk so) = expected E C (MatchQuery u tm d sk so)"
    by simp_all
qed

lemma CombinedMatcher_search_inv:
  assumes i: "CombinedMatcher_inv E C" and q: "plainQuery (SearchQuery u tm d sk so ft)"
  shows "CombinedMatcher_inv E (snd (CombinedMatcher_search E C u tm d sk so ft))"
    and "equivalentC (snd (CombinedMatcher_search E C u tm d sk so ft)) C"
    and "fst (CombinedMatcher_search E C u tm d sk so ft)
         = expected E C (SearchQuery u tm d sk so ft)"
proof -
  note p = inv_parts[OF i]
  let ?q = "SearchQuery u tm d sk so ft"
  let ?key = "searchKey u tm d sk so ft"
  have "CombinedMatcher_inv E (snd (CombinedMatcher_search E C u tm d sk so ft))
        \<and> equivalentC (snd (CombinedMatcher_search E C u tm d sk so ft)) C
        \<and> fst (CombinedMatcher_search E C u tm d sk so ft) = expected E C ?q"
  proof (cases "map_of (resultCache C) ?key")
    case (Some v)
    have v: "v = expected E C ?q" using cached_value[OF i q] Some by simp
    have g: "Cache_get (resultCache C) ?key = (Some v, snd (Cache_get (resultCache C) ?key))"
      using Some Cache_get_value[of "resultCache C" ?key]
      by (cases "Cache_get (resultCache C) ?key") simp
    have r: "CombinedMatcher_search E C u tm d sk so ft
             = (v, C\<lparr>resultCache := snd (Cache_get (resultCache C) ?key)\<rparr>)"
      unfolding CombinedMatcher_search_def Let_def by (subst g) simp
    show ?thesis
      using inv_touch[OF i, of ?key] v by (simp add: r equivalentC_def equivalent_refl)
  next
    case None
    have g: "Cache_get (resultCache C) ?key = (None, resultCache C)"
      using None by (simp add: Cache_get_def)
    obtain res C' where x: "searchInternal E C (requestFrom E u d) tm sk so ft = (res, C')"
      by (cases "searchInternal E C (requestFrom E u d) tm sk so ft")
    note s = searchInternal_state[OF p(3) p(4), of "requestFrom E u d" tm sk so ft, unfolded x,
        simplified]
    have v: "SearchValue res = expected E C ?q" using x by simp
    have r: "CombinedMatcher_search E C u tm d sk so ft
             = (SearchValue res,
                C'\<lparr>resultCache := Cache_set (resultCache C') ?key (SearchValue res)\<rparr>)"
      unfolding CombinedMatcher_search_def Let_def by (subst g) (simp add: x)
    have "equivalentC (C'\<lparr>resultCache := Cache_set (resultCache C') ?key (SearchValue res)\<rparr>) C"
      using s(3) by (simp add: equivalentC_def)
    then show ?thesis
      using inv_store[OF i s(1) s(2) s(3) s(4) q] v by (simp add: r)
  qed
  then show "CombinedMatcher_inv E (snd (CombinedMatcher_search E C u tm d sk so ft))"
    and "equivalentC (snd (CombinedMatcher_search E C u tm d sk so ft)) C"
    and "fst (CombinedMatcher_search E C u tm d sk so ft)
         = expected E C (SearchQuery u tm d sk so ft)"
    by simp_all
qed

lemma ask_inv:
  assumes "CombinedMatcher_inv E C" "plainQuery q"
  shows "CombinedMatcher_inv E (snd (ask E C q))"
    and "equivalentC (snd (ask E C q)) C"
    and "fst (ask E C q) = expected E C q"
  using assms CombinedMatcher_match_inv CombinedMatcher_search_inv
  by (cases q; simp)+

lemma not_whitelist: "filter_type f \<noteq> Whitelist \<Longrightarrow> filter_type f = Blocking"
  by (cases "filter_type f") simp_all

lemma CombinedMatcher_add_inv:
  assumes i: "CombinedMatcher_inv E C" and c: "canonical E f"
  shows "CombinedMatcher_inv E (CombinedMatcher_add E C f)"
  using inv_parts[OF i] c
  by (auto simp: CombinedMatcher_add_def CombinedMatcher_inv_def Let_def Cache_clear_def
      cacheCoherent_def wfm_add coherent_add holdsType_add not_whitelist)

lemma CombinedMatcher_remove_inv:
  assumes i: "CombinedMatcher_inv E C" and c: "canonical E f"
  shows "CombinedMatcher_inv E (CombinedMatcher_remove E C f)"
  using inv_parts[OF i] c
  by (auto simp: CombinedMatcher_remove_def CombinedMatcher_inv_def Let_def Cache_clear_def
      cacheCoherent_def wfm_remove coherent_remove holdsType_remove)

lemma empty_matcher_inv:
  assumes "keywordByFilter_sc m = []" "simpleFiltersByKeyword m = []"
    "complexFiltersByKeyword m = []" "compiledPatternsByKeyword_sc m = []"
    "filterMapsByType_sc m = []"
  shows "wfm E m" "coherent E m" "holdsType E ty m"
  using assms by (simp_all add: wfm_def coherent_def holdsType_def typeLookup_def typeBucket_def)

lemma CombinedMatcher_new_inv: "CombinedMatcher_inv E CombinedMatcher_new"
  by (simp add: CombinedMatcher_inv_def CombinedMatcher_new_def Matcher2_new_def
      empty_matcher_inv cacheCoherent_def)

lemma CombinedMatcher_clear_inv: "CombinedMatcher_inv E (CombinedMatcher_clear C)"
  by (simp add: CombinedMatcher_inv_def CombinedMatcher_clear_def Matcher2_clear_def
      empty_matcher_inv cacheCoherent_def Cache_clear_def)

lemma CombinedMatcher_apply_inv:
  assumes "CombinedMatcher_inv E C" "canonicalOp E op"
  shows "CombinedMatcher_inv E (CombinedMatcher_apply E C op)"
  using assms
  by (cases op)
    (simp_all add: CombinedMatcher_add_inv CombinedMatcher_remove_inv CombinedMatcher_clear_inv
      ask_inv(1))

lemma foldl_apply_inv:
  assumes "CombinedMatcher_inv E C" "list_all (canonicalOp E) ops"
  shows "CombinedMatcher_inv E (foldl (CombinedMatcher_apply E) C ops)"
  using assms by (induction ops arbitrary: C) (simp_all add: CombinedMatcher_apply_inv)

lemma CombinedMatcher_run_inv:
  "list_all (canonicalOp E) ops \<Longrightarrow> CombinedMatcher_inv E (CombinedMatcher_run E ops)"
  unfolding CombinedMatcher_run_def by (rule foldl_apply_inv[OF CombinedMatcher_new_inv])

lemma CombinedMatcher_apply_cong:
  assumes i1: "CombinedMatcher_inv E C1" and i2: "CombinedMatcher_inv E C2"
    and e: "equivalentC C1 C2" and c: "canonicalOp E op"
  shows "equivalentC (CombinedMatcher_apply E C1 op) (CombinedMatcher_apply E C2 op)"
    and "answer E C1 op = answer E C2 op"
proof -
  note p1 = inv_parts[OF i1] and p2 = inv_parts[OF i2]
  have ex: "expected E C1 q = expected E C2 q" for q
    by (rule expected_cong[OF p1(3) p1(4) p2(3) p2(4) e])
  have "equivalentC (CombinedMatcher_apply E C1 op) (CombinedMatcher_apply E C2 op)
        \<and> answer E C1 op = answer E C2 op"
  proof (cases op)
    case (CAdd f)
    then show ?thesis
      using e by (auto simp: CombinedMatcher_add_def equivalentC_def Let_def equivalent_add)
  next
    case (CRemove f)
    then show ?thesis
      using e by (auto simp: CombinedMatcher_remove_def equivalentC_def Let_def equivalent_remove)
  next
    case CClear
    then show ?thesis
      by (simp add: CombinedMatcher_clear_def equivalentC_def Matcher2_clear_def equivalent_def
          typeLookup_def)
  next
    case (CQuery q)
    then have pq: "plainQuery q" using c by simp
    have "equivalentC (snd (ask E C1 q)) (snd (ask E C2 q))"
      using ask_inv(2)[OF i1 pq] ask_inv(2)[OF i2 pq] e
      by (meson equivalentC_sym equivalentC_trans)
    then show ?thesis
      using CQuery by (simp add: ask_inv(3)[OF i1 pq] ask_inv(3)[OF i2 pq] ex)
  qed
  then show "equivalentC (CombinedMatcher_apply E C1 op) (CombinedMatcher_apply E C2 op)"
    and "answer E C1 op = answer E C2 op" by simp_all
qed

lemma answers_cong:
  assumes "CombinedMatcher_inv E C1" "CombinedMatcher_inv E C2" "equivalentC C1 C2"
    "list_all (canonicalOp E) qs"
  shows "answers E C1 qs = answers E C2 qs"
  using assms
proof (induction qs arbitrary: C1 C2)
  case Nil
  then show ?case by simp
next
  case (Cons q qs)
  have c: "canonicalOp E q" "list_all (canonicalOp E) qs" using Cons.prems(4) by simp_all
  note a = CombinedMatcher_apply_cong[OF Cons.prems(1) Cons.prems(2) Cons.prems(3) c(1)]
  have "answers E (CombinedMatcher_apply E C1 q) qs = answers E (CombinedMatcher_apply E C2 q) qs"
    by (rule Cons.IH[OF CombinedMatcher_apply_inv[OF Cons.prems(1) c(1)]
          CombinedMatcher_apply_inv[OF Cons.prems(2) c(1)] a(1) c(2)])
  then show ?case using a(2) by simp
qed

subsection \<open>What a lookup returns\<close>

lemma scan_sound:
  assumes "scanFilters E r tm sk sg ts None = (Some f, c)"
  shows "\<exists>t\<in>set ts. f = fromText E t \<and> URLFilter_matches E f r tm sk = Some True
           \<and> \<not> (sg \<and> isGeneric f)"
  using assms
proof (induction ts)
  case Nil
  then show ?case by simp
next
  case (Cons t ts)
  show ?case
  proof (cases "sg \<and> isGeneric (fromText E t)")
    case True
    then show ?thesis using Cons by (auto simp: Let_def)
  next
    case False
    show ?thesis
    proof (cases "URLFilter_matches E (fromText E t) r tm sk = Some True")
      case True
      then show ?thesis using False Cons.prems by (auto simp: Let_def matchFilter_def)
    next
      case m: False
      then show ?thesis using False Cons by (auto simp: Let_def matchFilter_def)
    qed
  qed
qed

lemma scan_collect:
  assumes "scanFilters E r tm sk sg ts (Some c0) = (res, col)"
  shows "res = None \<and> (\<exists>added. col = Some (c0 @ added)
           \<and> (\<forall>g\<in>set added. \<exists>t\<in>set ts. g = fromText E t
                 \<and> URLFilter_matches E g r tm sk = Some True \<and> \<not> (sg \<and> isGeneric g)))"
  using assms
proof (induction ts arbitrary: c0)
  case Nil
  then show ?case by simp
next
  case (Cons t ts)
  show ?case
  proof (cases "sg \<and> isGeneric (fromText E t)")
    case True
    then have "scanFilters E r tm sk sg ts (Some c0) = (res, col)"
      using Cons.prems by (auto simp: Let_def)
    from Cons.IH[OF this] show ?thesis by auto
  next
    case False
    show ?thesis
    proof (cases "URLFilter_matches E (fromText E t) r tm sk = Some True")
      case True
      then have "scanFilters E r tm sk sg ts (Some (c0 @ [fromText E t])) = (res, col)"
        using False Cons.prems by (auto simp: Let_def matchFilter_def)
      from Cons.IH[OF this] obtain added where a: "res = None" "col = Some ((c0 @ [fromText E t]) @ added)"
        "\<forall>g\<in>set added. \<exists>t\<in>set ts. g = fromText E t
                 \<and> URLFilter_matches E g r tm sk = Some True \<and> \<not> (sg \<and> isGeneric g)"
        by blast
      have "col = Some (c0 @ (fromText E t # added))" using a(2) by simp
      moreover have "\<forall>g\<in>set (fromText E t # added). \<exists>t'\<in>set (t # ts). g = fromText E t'
                 \<and> URLFilter_matches E g r tm sk = Some True \<and> \<not> (sg \<and> isGeneric g)"
        using a(3) True False by auto
      ultimately show ?thesis using a(1) by blast
    next
      case m: False
      then have "scanFilters E r tm sk sg ts (Some c0) = (res, col)"
        using False Cons.prems by (auto simp: Let_def matchFilter_def)
      from Cons.IH[OF this] show ?thesis by auto
    qed
  qed
qed

lemma collect_nothing:
  assumes "res = None" "col = Some c0"
  shows "res = None \<and> (\<exists>added. col = Some (c0 @ added) \<and> (\<forall>g\<in>set added. P g))"
  using assms by (intro conjI exI[of _ "[]"]) simp_all

lemma simple_matches:
  assumes "isSimple E f" "URLFilter_matches E f r (RESOURCE_TYPES E) None = Some True"
    "and tm (RESOURCE_TYPES E) \<noteq> 0"
  shows "URLFilter_matches E f r tm sk = Some True"
proof -
  have ct: "filter_contentType f = RESOURCE_TYPES E" and g: "isGeneric f"
    using assms(1) by (simp_all add: isSimple_def)
  have a: "isActiveOnDomain f (documentHostname r) None = Some True"
    using assms(2) by (auto simp: URLFilter_matches_def split: if_splits)
  have "filter_sitekeys f = None"
    using a by (auto simp: isActiveOnDomain_def split: option.splits if_splits)
  then have "isActiveOnDomain f (documentHostname r) sk = isActiveOnDomain f (documentHostname r) None"
    by (simp add: isActiveOnDomain_def)
  moreover have "and (RESOURCE_TYPES E) tm \<noteq> 0" using assms(3) by (simp add: and.commute)
  ultimately show ?thesis
    using assms(2) ct by (auto simp: URLFilter_matches_def split: if_splits)
qed

lemma quickCheck_equivalent: "equivalent (snd (checkEntryMatchSimpleQuickCheck E m k r b)) m"
  by (simp add: checkEntryMatchSimpleQuickCheck_def Let_def equivalent_def typeLookup_def
      split: option.splits)

lemma checkSimple_equivalent: "equivalent (snd (snd (checkEntryMatchSimple E m k r col))) m"
proof (cases "map_of (simpleFiltersByKeyword m) k")
  case None
  then show ?thesis by (simp add: checkEntryMatchSimple_def equivalent_refl)
next
  case (Some b)
  obtain ok m' where q: "checkEntryMatchSimpleQuickCheck E m k r b = (ok, m')"
    by (cases "checkEntryMatchSimpleQuickCheck E m k r b")
  have "equivalent m' m" using quickCheck_equivalent[of E m k r b] q by simp
  then show ?thesis
    using Some q
    by (auto simp: checkEntryMatchSimple_def Let_def equivalent_refl split: prod.splits)
qed

lemma checkSimple_sound:
  assumes w: "wfm E m" and x: "checkEntryMatchSimple E m k r None = (Some f, c, m')"
  shows "\<exists>t. f = fromText E t \<and> map_of (keywordByFilter_sc m) t = Some k
           \<and> isSimple E f \<and> URLFilter_matches E f r (RESOURCE_TYPES E) None = Some True"
proof (cases "map_of (simpleFiltersByKeyword m) k")
  case None
  then show ?thesis using x by (simp add: checkEntryMatchSimple_def)
next
  case (Some b)
  obtain ok n where q: "checkEntryMatchSimpleQuickCheck E m k r b = (ok, n)"
    by (cases "checkEntryMatchSimpleQuickCheck E m k r b")
  obtain res col where s: "scanFilters E r (RESOURCE_TYPES E) None False (bucketList b) None
                            = (res, col)"
    by (cases "scanFilters E r (RESOURCE_TYPES E) None False (bucketList b) None")
  have "res = Some f"
    using x Some q s by (auto simp: checkEntryMatchSimple_def Let_def split: if_splits)
  from scan_sound[OF s[unfolded this]] obtain t where t: "t \<in> set (bucketList b)"
    "f = fromText E t" "URLFilter_matches E f r (RESOURCE_TYPES E) None = Some True" by blast
  have "t \<in> bucketTexts (map_of (simpleFiltersByKeyword m) k)" using t(1) Some by simp
  from wfmD_simple[OF w this] show ?thesis using t by auto
qed

lemma checkSimple_collect:
  assumes w: "wfm E m" and x: "checkEntryMatchSimple E m k r (Some c0) = (res, col, m')"
  shows "res = None \<and> (\<exists>added. col = Some (c0 @ added)
           \<and> (\<forall>g\<in>set added. \<exists>t. g = fromText E t \<and> map_of (keywordByFilter_sc m) t = Some k
                 \<and> isSimple E g \<and> URLFilter_matches E g r (RESOURCE_TYPES E) None = Some True))"
proof (cases "map_of (simpleFiltersByKeyword m) k")
  case None
  then have "res = None" "col = Some c0" using x by (simp_all add: checkEntryMatchSimple_def)
  then show ?thesis by (rule collect_nothing)
next
  case (Some b)
  obtain ok n where q: "checkEntryMatchSimpleQuickCheck E m k r b = (ok, n)"
    by (cases "checkEntryMatchSimpleQuickCheck E m k r b")
  obtain res' col' where s: "scanFilters E r (RESOURCE_TYPES E) None False (bucketList b) (Some c0)
                            = (res', col')"
    by (cases "scanFilters E r (RESOURCE_TYPES E) None False (bucketList b) (Some c0)")
  from scan_collect[OF s] obtain added where a: "res' = None" "col' = Some (c0 @ added)"
    "\<forall>g\<in>set added. \<exists>t\<in>set (bucketList b). g = fromText E t
        \<and> URLFilter_matches E g r (RESOURCE_TYPES E) None = Some True" by auto
  have g: "\<forall>g\<in>set added. \<exists>t. g = fromText E t \<and> map_of (keywordByFilter_sc m) t = Some k
                 \<and> isSimple E g \<and> URLFilter_matches E g r (RESOURCE_TYPES E) None = Some True"
  proof
    fix g assume "g \<in> set added"
    then obtain t where t: "t \<in> set (bucketList b)" "g = fromText E t"
       "URLFilter_matches E g r (RESOURCE_TYPES E) None = Some True" using a(3) by blast
    have "t \<in> bucketTexts (map_of (simpleFiltersByKeyword m) k)" using t(1) Some by simp
    from wfmD_simple[OF w this] show "\<exists>t. g = fromText E t \<and> map_of (keywordByFilter_sc m) t = Some k
                 \<and> isSimple E g \<and> URLFilter_matches E g r (RESOURCE_TYPES E) None = Some True"
      using t by auto
  qed
  have "(res = None \<and> col = Some c0) \<or> (res = res' \<and> col = col')"
    using x Some q s by (auto simp: checkEntryMatchSimple_def Let_def split: if_splits)
  then show ?thesis
  proof
    assume "res = None \<and> col = Some c0"
    then have "res = None" "col = Some c0" by simp_all
    then show ?thesis by (rule collect_nothing)
  next
    assume "res = res' \<and> col = col'"
    then show ?thesis using a(1) a(2) g by blast
  qed
qed

lemma forType_sound:
  assumes w: "wfm E m" and x: "checkEntryMatchForType E m k r tm sk so None = (Some f, c)"
  shows "\<exists>t. f = fromText E t \<and> map_of (keywordByFilter_sc m) t = Some k
           \<and> URLFilter_matches E f r tm sk = Some True \<and> \<not> (so \<and> isGeneric f)"
proof (cases "typeLookup m tm k")
  case None
  then show ?thesis using x by (simp add: forType_lookup)
next
  case (Some b)
  have "scanFilters E r tm sk so (bucketList b) None = (Some f, c)"
    using x Some by (simp add: forType_lookup split: if_splits)
  from scan_sound[OF this] obtain t where t: "t \<in> set (bucketList b)"
    "f = fromText E t" "URLFilter_matches E f r tm sk = Some True" "\<not> (so \<and> isGeneric f)" by blast
  have "t \<in> bucketTexts (typeLookup m tm k)" using t(1) Some by simp
  from wfmD_typed[OF w this] show ?thesis using t by auto
qed

lemma complex_sound:
  assumes w: "wfm E m" and x: "checkEntryMatchComplex E m k r tm sk so None = (Some f, c)"
  shows "\<exists>t. f = fromText E t \<and> map_of (keywordByFilter_sc m) t = Some k
           \<and> URLFilter_matches E f r tm sk = Some True \<and> \<not> (so \<and> isGeneric f)"
proof (cases "map_of (complexFiltersByKeyword m) k")
  case None
  then show ?thesis using x by (simp add: checkEntryMatchComplex_def Let_def)
next
  case (Some b)
  have "scanFilters E r tm sk so (bucketList b) None = (Some f, c)"
    using x Some by (simp add: checkEntryMatchComplex_def Let_def split: if_splits)
  from scan_sound[OF this] obtain t where t: "t \<in> set (bucketList b)"
    "f = fromText E t" "URLFilter_matches E f r tm sk = Some True" "\<not> (so \<and> isGeneric f)" by blast
  have "t \<in> bucketTexts (map_of (complexFiltersByKeyword m) k)" using t(1) Some by simp
  from wfmD_complex[OF w this] show ?thesis using t by auto
qed

lemma forType_collect:
  assumes w: "wfm E m" and x: "checkEntryMatchForType E m k r tm sk so (Some c0) = (res, col)"
  shows "res = None \<and> (\<exists>added. col = Some (c0 @ added)
           \<and> (\<forall>g\<in>set added. \<exists>t. g = fromText E t \<and> map_of (keywordByFilter_sc m) t = Some k
                 \<and> URLFilter_matches E g r tm sk = Some True \<and> \<not> (so \<and> isGeneric g)))"
proof (cases "typeLookup m tm k")
  case None
  then have "res = None" "col = Some c0" using x by (simp_all add: forType_lookup)
  then show ?thesis by (rule collect_nothing)
next
  case (Some b)
  show ?thesis
  proof (cases "truthyBucket (Some b)")
    case False
    then have "res = None" "col = Some c0" using x Some by (simp_all add: forType_lookup)
    then show ?thesis by (rule collect_nothing)
  next
    case True
    then have "scanFilters E r tm sk so (bucketList b) (Some c0) = (res, col)"
      using x Some by (simp add: forType_lookup)
    from scan_collect[OF this] obtain added where a: "res = None" "col = Some (c0 @ added)"
      "\<forall>g\<in>set added. \<exists>t\<in>set (bucketList b). g = fromText E t
          \<and> URLFilter_matches E g r tm sk = Some True \<and> \<not> (so \<and> isGeneric g)" by auto
    have "\<forall>g\<in>set added. \<exists>t. g = fromText E t \<and> map_of (keywordByFilter_sc m) t = Some k
                 \<and> URLFilter_matches E g r tm sk = Some True \<and> \<not> (so \<and> isGeneric g)"
    proof
      fix g assume "g \<in> set added"
      then obtain t where t: "t \<in> set (bucketList b)" "g = fromText E t"
        "URLFilter_matches E g r tm sk = Some True" "\<not> (so \<and> isGeneric g)" using a(3) by blast
      have "t \<in> bucketTexts (typeLookup m tm k)" using t(1) Some by simp
      from wfmD_typed[OF w this]
      show "\<exists>t. g = fromText E t \<and> map_of (keywordByFilter_sc m) t = Some k
                 \<and> URLFilter_matches E g r tm sk = Some True \<and> \<not> (so \<and> isGeneric g)"
        using t by auto
    qed
    then show ?thesis using a(1) a(2) by blast
  qed
qed

lemma complex_collect:
  assumes w: "wfm E m" and x: "checkEntryMatchComplex E m k r tm sk so (Some c0) = (res, col)"
  shows "res = None \<and> (\<exists>added. col = Some (c0 @ added)
           \<and> (\<forall>g\<in>set added. \<exists>t. g = fromText E t \<and> map_of (keywordByFilter_sc m) t = Some k
                 \<and> URLFilter_matches E g r tm sk = Some True \<and> \<not> (so \<and> isGeneric g)))"
proof (cases "map_of (complexFiltersByKeyword m) k")
  case None
  then have "res = None" "col = Some c0" using x by (simp_all add: checkEntryMatchComplex_def Let_def)
  then show ?thesis by (rule collect_nothing)
next
  case (Some b)
  show ?thesis
  proof (cases "truthyBucket (Some b)")
    case False
    then have "res = None" "col = Some c0"
      using x Some by (simp_all add: checkEntryMatchComplex_def Let_def)
    then show ?thesis by (rule collect_nothing)
  next
    case True
    then have "scanFilters E r tm sk so (bucketList b) (Some c0) = (res, col)"
      using x Some by (simp add: checkEntryMatchComplex_def Let_def)
    from scan_collect[OF this] obtain added where a: "res = None" "col = Some (c0 @ added)"
      "\<forall>g\<in>set added. \<exists>t\<in>set (bucketList b). g = fromText E t
          \<and> URLFilter_matches E g r tm sk = Some True \<and> \<not> (so \<and> isGeneric g)" by auto
    have "\<forall>g\<in>set added. \<exists>t. g = fromText E t \<and> map_of (keywordByFilter_sc m) t = Some k
                 \<and> URLFilter_matches E g r tm sk = Some True \<and> \<not> (so \<and> isGeneric g)"
    proof
      fix g assume "g \<in> set added"
      then obtain t where t: "t \<in> set (bucketList b)" "g = fromText E t"
        "URLFilter_matches E g r tm sk = Some True" "\<not> (so \<and> isGeneric g)" using a(3) by blast
      have "t \<in> bucketTexts (map_of (complexFiltersByKeyword m) k)" using t(1) Some by simp
      from wfmD_complex[OF w this]
      show "\<exists>t. g = fromText E t \<and> map_of (keywordByFilter_sc m) t = Some k
                 \<and> URLFilter_matches E g r tm sk = Some True \<and> \<not> (so \<and> isGeneric g)"
        using t by auto
    qed
    then show ?thesis using a(1) a(2) by blast
  qed
qed

lemma scan_none: "snd (scanFilters E r tm sk sg ts None) = None"
proof (induction ts)
  case Nil
  then show ?case by simp
next
  case (Cons t ts)
  then show ?case by (auto simp: Let_def matchFilter_def split: prod.splits option.splits)
qed

lemma checkSimple_none: "fst (snd (checkEntryMatchSimple E m k r None)) = None"
proof (cases "map_of (simpleFiltersByKeyword m) k")
  case None
  then show ?thesis by (simp add: checkEntryMatchSimple_def)
next
  case (Some b)
  obtain ok n where q: "checkEntryMatchSimpleQuickCheck E m k r b = (ok, n)"
    by (cases "checkEntryMatchSimpleQuickCheck E m k r b")
  obtain res col where s: "scanFilters E r (RESOURCE_TYPES E) None False (bucketList b) None
                            = (res, col)"
    by (cases "scanFilters E r (RESOURCE_TYPES E) None False (bucketList b) None")
  have "col = None" using scan_none[of E r "RESOURCE_TYPES E" None False "bucketList b"] s by simp
  then show ?thesis using Some q s by (simp add: checkEntryMatchSimple_def Let_def)
qed

lemma heldMatch_equivalent: "equivalent m1 m2 \<Longrightarrow> heldMatch E m1 = heldMatch E m2"
  by (intro ext) (simp add: heldMatch_def equivalent_def)

lemma check_equivalent: "equivalent (snd (snd (checkEntryMatch E m k r tm sk so col))) m"
proof -
  define x where "x = (if \<not> so \<and> and tm (RESOURCE_TYPES E) \<noteq> 0
            then checkEntryMatchSimple E m k r col else (None, col, m))"
  have x: "equivalent (snd (snd x)) m"
    using checkSimple_equivalent[of E m k r col] by (simp add: x_def equivalent_refl)
  have "snd (snd (checkEntryMatch E m k r tm sk so col)) = snd (snd x)"
    unfolding checkEntryMatch_def x_def[symmetric]
    by (cases x) (auto split: option.splits prod.splits)
  then show ?thesis using x by simp
qed

lemma check_sound:
  assumes w: "wfm E m" and x: "checkEntryMatch E m k r tm sk so None = (Some f, c, m')"
  shows "heldMatch E m r tm sk so f"
proof -
  define y where "y = (if \<not> so \<and> and tm (RESOURCE_TYPES E) \<noteq> 0
            then checkEntryMatchSimple E m k r None else (None, None, m))"
  obtain a b n where y: "y = (a, b, n)" by (cases y)
  have en: "equivalent n m"
    using checkSimple_equivalent[of E m k r None] y by (auto simp: y_def equivalent_refl split: if_splits)
  have wn: "wfm E n" using w wfm_equivalent[OF en, of E] by simp
  have kn: "keywordByFilter_sc n = keywordByFilter_sc m" using en by (simp add: equivalent_def)
  show ?thesis
  proof (cases a)
    case (Some g)
    then have fg: "g = f" using x y by (simp add: checkEntryMatch_def y_def[symmetric])
    have s: "\<not> so" "and tm (RESOURCE_TYPES E) \<noteq> 0" "checkEntryMatchSimple E m k r None = (Some f, b, n)"
      using y Some fg by (auto simp: y_def split: if_splits)
    from checkSimple_sound[OF w s(3)] obtain t where t: "f = fromText E t"
      "map_of (keywordByFilter_sc m) t = Some k" "isSimple E f"
      "URLFilter_matches E f r (RESOURCE_TYPES E) None = Some True" by blast
    have "URLFilter_matches E f r tm sk = Some True" by (rule simple_matches[OF t(3) t(4) s(2)])
    then show ?thesis using t s(1) by (auto simp: heldMatch_def)
  next
    case None
    have bn: "b = None"
      using y checkSimple_none[of E m k r] by (auto simp: y_def split: if_splits)
    show ?thesis
    proof (cases "and tm (SPECIAL_TYPES E) \<noteq> 0 \<and> and tm (tm - 1) = 0")
      case True
      obtain r1 c1 where z: "checkEntryMatchForType E n k r tm sk so None = (r1, c1)"
        by (cases "checkEntryMatchForType E n k r tm sk so None")
      have "r1 = Some f"
        using x y None True z bn by (simp add: checkEntryMatch_def y_def[symmetric])
      from forType_sound[OF wn z[unfolded this]] show ?thesis
        by (auto simp: heldMatch_def kn)
    next
      case False
      obtain r1 c1 where z: "checkEntryMatchComplex E n k r tm sk so None = (r1, c1)"
        by (cases "checkEntryMatchComplex E n k r tm sk so None")
      have "r1 = Some f"
        using x y None False z bn by (simp add: checkEntryMatch_def y_def[symmetric])
      from complex_sound[OF wn z[unfolded this]] show ?thesis
        by (auto simp: heldMatch_def kn)
    qed
  qed
qed

lemma forType_none: "snd (checkEntryMatchForType E m k r tm sk so None) = None"
  using scan_none[of E r tm sk so]
  by (simp add: forType_lookup split: option.splits)

lemma complex_none: "snd (checkEntryMatchComplex E m k r tm sk so None) = None"
  using scan_none[of E r tm sk so]
  by (simp add: checkEntryMatchComplex_def Let_def split: option.splits)

lemma check_none: "fst (snd (checkEntryMatch E m k r tm sk so None)) = None"
proof -
  define y where "y = (if \<not> so \<and> and tm (RESOURCE_TYPES E) \<noteq> 0
            then checkEntryMatchSimple E m k r None else (None, None, m))"
  obtain a b n where y: "y = (a, b, n)" by (cases y)
  have bn: "b = None"
    using y checkSimple_none[of E m k r] by (auto simp: y_def split: if_splits)
  obtain r1 c1 where z1: "checkEntryMatchForType E n k r tm sk so None = (r1, c1)"
    by (cases "checkEntryMatchForType E n k r tm sk so None")
  obtain r2 c2 where z2: "checkEntryMatchComplex E n k r tm sk so None = (r2, c2)"
    by (cases "checkEntryMatchComplex E n k r tm sk so None")
  have c: "c1 = None" "c2 = None"
    using forType_none[of E n k r tm sk so] complex_none[of E n k r tm sk so] z1 z2 by simp_all
  show ?thesis
    unfolding checkEntryMatch_def y_def[symmetric] y
    using bn c z1 z2 by (cases a) simp_all
qed

lemma check_collect:
  assumes w: "wfm E m" and x: "checkEntryMatch E m k r tm sk so (Some c0) = (res, col, m')"
  shows "res = None \<and> (\<exists>added. col = Some (c0 @ added)
           \<and> (\<forall>g\<in>set added. heldMatch E m r tm sk so g))"
proof -
  define y where "y = (if \<not> so \<and> and tm (RESOURCE_TYPES E) \<noteq> 0
            then checkEntryMatchSimple E m k r (Some c0) else (None, Some c0, m))"
  obtain a b n where y: "y = (a, b, n)" by (cases y)
  have en: "equivalent n m"
    using checkSimple_equivalent[of E m k r "Some c0"] y
    by (auto simp: y_def equivalent_refl split: if_splits)
  have wn: "wfm E n" using w wfm_equivalent[OF en, of E] by simp
  have kn: "keywordByFilter_sc n = keywordByFilter_sc m" using en by (simp add: equivalent_def)
  have first: "a = None \<and> (\<exists>a1. b = Some (c0 @ a1) \<and> (\<forall>g\<in>set a1. heldMatch E m r tm sk so g))"
  proof (cases "\<not> so \<and> and tm (RESOURCE_TYPES E) \<noteq> 0")
    case True
    then have s: "checkEntryMatchSimple E m k r (Some c0) = (a, b, n)" using y by (simp add: y_def)
    from checkSimple_collect[OF w s] obtain a1 where a1: "a = None" "b = Some (c0 @ a1)"
      "\<forall>g\<in>set a1. \<exists>t. g = fromText E t \<and> map_of (keywordByFilter_sc m) t = Some k
                 \<and> isSimple E g \<and> URLFilter_matches E g r (RESOURCE_TYPES E) None = Some True"
      by blast
    have "\<forall>g\<in>set a1. heldMatch E m r tm sk so g"
    proof
      fix g assume "g \<in> set a1"
      then obtain t where t: "g = fromText E t" "map_of (keywordByFilter_sc m) t = Some k"
        "isSimple E g" "URLFilter_matches E g r (RESOURCE_TYPES E) None = Some True"
        using a1(3) by blast
      have "URLFilter_matches E g r tm sk = Some True"
        using simple_matches[OF t(3) t(4)] True by simp
      then show "heldMatch E m r tm sk so g" using t True by (auto simp: heldMatch_def)
    qed
    then show ?thesis using a1 by blast
  next
    case False
    then have "a = None" "b = Some c0" using y by (auto simp: y_def)
    then show ?thesis by (rule collect_nothing)
  qed
  then obtain a1 where a1: "a = None" "b = Some (c0 @ a1)" "\<forall>g\<in>set a1. heldMatch E m r tm sk so g"
    by blast
  have second: "\<exists>r1 c1. (res, col) = (r1, c1) \<and> r1 = None
      \<and> (\<exists>a2. c1 = Some ((c0 @ a1) @ a2) \<and> (\<forall>g\<in>set a2. heldMatch E m r tm sk so g))"
  proof (cases "and tm (SPECIAL_TYPES E) \<noteq> 0 \<and> and tm (tm - 1) = 0")
    case True
    obtain r1 c1 where z: "checkEntryMatchForType E n k r tm sk so (Some (c0 @ a1)) = (r1, c1)"
      by (cases "checkEntryMatchForType E n k r tm sk so (Some (c0 @ a1))")
    have rc: "(res, col) = (r1, c1)"
      using x y a1(1) a1(2) True z by (simp add: checkEntryMatch_def y_def[symmetric])
    from forType_collect[OF wn z] obtain a2 where a2: "r1 = None" "c1 = Some ((c0 @ a1) @ a2)"
      "\<forall>g\<in>set a2. \<exists>t. g = fromText E t \<and> map_of (keywordByFilter_sc n) t = Some k
                 \<and> URLFilter_matches E g r tm sk = Some True \<and> \<not> (so \<and> isGeneric g)" by blast
    have "\<forall>g\<in>set a2. heldMatch E m r tm sk so g"
      unfolding heldMatch_def using a2(3) kn by (metis option.distinct(1))
    then show ?thesis using rc a2(1) a2(2) by blast
  next
    case False
    obtain r1 c1 where z: "checkEntryMatchComplex E n k r tm sk so (Some (c0 @ a1)) = (r1, c1)"
      by (cases "checkEntryMatchComplex E n k r tm sk so (Some (c0 @ a1))")
    have rc: "(res, col) = (r1, c1)"
      using x y a1(1) a1(2) False z by (simp add: checkEntryMatch_def y_def[symmetric])
    from complex_collect[OF wn z] obtain a2 where a2: "r1 = None" "c1 = Some ((c0 @ a1) @ a2)"
      "\<forall>g\<in>set a2. \<exists>t. g = fromText E t \<and> map_of (keywordByFilter_sc n) t = Some k
                 \<and> URLFilter_matches E g r tm sk = Some True \<and> \<not> (so \<and> isGeneric g)" by blast
    have "\<forall>g\<in>set a2. heldMatch E m r tm sk so g"
      unfolding heldMatch_def using a2(3) kn by (metis option.distinct(1))
    then show ?thesis using rc a2(1) a2(2) by blast
  qed
  then obtain a2 where a2: "res = None" "col = Some ((c0 @ a1) @ a2)"
    "\<forall>g\<in>set a2. heldMatch E m r tm sk so g" by auto
  have "col = Some (c0 @ (a1 @ a2))" using a2(2) by simp
  moreover have "\<forall>g\<in>set (a1 @ a2). heldMatch E m r tm sk so g" using a1(3) a2(3) by auto
  ultimately show ?thesis using a2(1) by blast
qed

lemma check_specific:
  assumes "checkEntryMatch E m k r tm sk True None = (Some f, c, m')"
  shows "\<not> isGeneric f"
proof (cases "and tm (SPECIAL_TYPES E) \<noteq> 0 \<and> and tm (tm - 1) = 0")
  case True
  obtain r1 c1 where z: "checkEntryMatchForType E m k r tm sk True None = (r1, c1)"
    by (cases "checkEntryMatchForType E m k r tm sk True None")
  have r1: "r1 = Some f" using assms True z by (simp add: checkEntryMatch_def)
  show ?thesis
  proof (cases "typeLookup m tm k")
    case None
    then show ?thesis using z r1 by (simp add: forType_lookup)
  next
    case (Some b)
    have "scanFilters E r tm sk True (bucketList b) None = (Some f, c1)"
      using z r1 Some by (simp add: forType_lookup split: if_splits)
    from scan_sound[OF this] show ?thesis by auto
  qed
next
  case False
  obtain r1 c1 where z: "checkEntryMatchComplex E m k r tm sk True None = (r1, c1)"
    by (cases "checkEntryMatchComplex E m k r tm sk True None")
  have r1: "r1 = Some f" using assms False z by (simp add: checkEntryMatch_def)
  show ?thesis
  proof (cases "map_of (complexFiltersByKeyword m) k")
    case None
    then show ?thesis using z r1 by (simp add: checkEntryMatchComplex_def Let_def)
  next
    case (Some b)
    have "scanFilters E r tm sk True (bucketList b) None = (Some f, c1)"
      using z r1 Some by (simp add: checkEntryMatchComplex_def Let_def split: if_splits)
    from scan_sound[OF this] show ?thesis by auto
  qed
qed

lemma matchLoop_specific:
  assumes "fst (matchLoop E m r tm sk True cs) = Some f"
  shows "\<not> isGeneric f"
  using assms
proof (induction cs arbitrary: m)
  case Nil
  then show ?case by simp
next
  case (Cons c cs)
  show ?case
  proof (cases "isBadKeyword c")
    case True
    then show ?thesis using Cons by simp
  next
    case False
    obtain a b m' where x: "checkEntryMatch E m c r tm sk True None = (a, b, m')"
      by (cases "checkEntryMatch E m c r tm sk True None")
    show ?thesis
    proof (cases a)
      case None
      then show ?thesis using False x Cons by simp
    next
      case (Some g)
      then have "g = f" using False x Cons.prems by simp
      then show ?thesis using check_specific[of E m c r tm sk] x Some by simp
    qed
  qed
qed

lemma matchLoop_sound:
  assumes "wfm E m" "fst (matchLoop E m r tm sk so cs) = Some f"
  shows "heldMatch E m r tm sk so f"
  using assms
proof (induction cs arbitrary: m)
  case Nil
  then show ?case by simp
next
  case (Cons c cs)
  show ?case
  proof (cases "isBadKeyword c")
    case True
    then show ?thesis using Cons by simp
  next
    case False
    obtain a b m' where x: "checkEntryMatch E m c r tm sk so None = (a, b, m')"
      by (cases "checkEntryMatch E m c r tm sk so None")
    have e: "equivalent m' m" using check_equivalent[of E m c r tm sk so None] x by simp
    show ?thesis
    proof (cases a)
      case None
      have "wfm E m'" using Cons.prems(1) wfm_equivalent[OF e, of E] by simp
      moreover have "fst (matchLoop E m' r tm sk so cs) = Some f"
        using False x None Cons.prems(2) by simp
      ultimately have "heldMatch E m' r tm sk so f" by (rule Cons.IH)
      then show ?thesis using heldMatch_equivalent[OF e, of E] by simp
    next
      case (Some g)
      then have "g = f" using False x Cons.prems(2) by simp
      then show ?thesis using check_sound[OF Cons.prems(1), of c r tm sk so f b m'] x Some by simp
    qed
  qed
qed

lemma searchLoop_sound:
  assumes "wfm E b" "wfm E w"
    and "\<forall>c. hb = Some c \<longrightarrow> (\<forall>g\<in>set c. heldMatch E b r tm sk so g)"
    and "\<forall>c. hw = Some c \<longrightarrow> (\<forall>g\<in>set c. heldMatch E w r tm sk False g)"
  shows "(\<forall>c. fst (fst (searchLoop E b w r tm sk so sb sw hb hw cs)) = Some c
            \<longrightarrow> (\<forall>g\<in>set c. heldMatch E b r tm sk so g))
       \<and> (\<forall>c. snd (fst (searchLoop E b w r tm sk so sb sw hb hw cs)) = Some c
            \<longrightarrow> (\<forall>g\<in>set c. heldMatch E w r tm sk False g))"
  using assms
proof (induction cs arbitrary: b w hb hw)
  case Nil
  then show ?case by simp
next
  case (Cons c cs)
  show ?case
  proof (cases "isBadKeyword c")
    case True
    then show ?thesis using Cons.IH[OF Cons.prems] by simp
  next
    case False
    define x where "x = (if sb then checkEntryMatch E b c r tm sk so hb else (None, hb, b))"
    define y where "y = (if sw then checkEntryMatch E w c r tm sk False hw else (None, hw, w))"
    obtain r1 hb' b' where x: "x = (r1, hb', b')" by (cases x)
    obtain r2 hw' w' where y: "y = (r2, hw', w')" by (cases y)
    have eb: "equivalent b' b"
      using check_equivalent[of E b c r tm sk so hb] x
      by (auto simp: x_def equivalent_refl split: if_splits)
    have ew: "equivalent w' w"
      using check_equivalent[of E w c r tm sk False hw] y
      by (auto simp: y_def equivalent_refl split: if_splits)
    have wb: "wfm E b'" using Cons.prems(1) wfm_equivalent[OF eb, of E] by simp
    have ww: "wfm E w'" using Cons.prems(2) wfm_equivalent[OF ew, of E] by simp
    have hb': "\<forall>l. hb' = Some l \<longrightarrow> (\<forall>g\<in>set l. heldMatch E b r tm sk so g)"
    proof (cases "sb \<and> hb \<noteq> None")
      case True
      then obtain c0 where c0: "hb = Some c0" by auto
      have "checkEntryMatch E b c r tm sk so (Some c0) = (r1, hb', b')"
        using True x c0 by (simp add: x_def)
      from check_collect[OF Cons.prems(1) this] obtain added where
        "hb' = Some (c0 @ added)" "\<forall>g\<in>set added. heldMatch E b r tm sk so g" by blast
      then show ?thesis using Cons.prems(3) c0 by auto
    next
      case False
      show ?thesis
      proof (cases sb)
        case True
        then have n: "hb = None" using False by simp
        have "fst (snd (checkEntryMatch E b c r tm sk so None)) = None" by (rule check_none)
        then have "hb' = None" using True n x by (simp add: x_def)
        then show ?thesis by simp
      next
        case False
        then have "hb' = hb" using x by (simp add: x_def)
        then show ?thesis using Cons.prems(3) by simp
      qed
    qed
    have hw': "\<forall>l. hw' = Some l \<longrightarrow> (\<forall>g\<in>set l. heldMatch E w r tm sk False g)"
    proof (cases "sw \<and> hw \<noteq> None")
      case True
      then obtain c0 where c0: "hw = Some c0" by auto
      have "checkEntryMatch E w c r tm sk False (Some c0) = (r2, hw', w')"
        using True y c0 by (simp add: y_def)
      from check_collect[OF Cons.prems(2) this] obtain added where
        "hw' = Some (c0 @ added)" "\<forall>g\<in>set added. heldMatch E w r tm sk False g" by blast
      then show ?thesis using Cons.prems(4) c0 by auto
    next
      case False
      show ?thesis
      proof (cases sw)
        case True
        then have n: "hw = None" using False by simp
        have "fst (snd (checkEntryMatch E w c r tm sk False None)) = None" by (rule check_none)
        then have "hw' = None" using True n y by (simp add: y_def)
        then show ?thesis by simp
      next
        case False
        then have "hw' = hw" using y by (simp add: y_def)
        then show ?thesis using Cons.prems(4) by simp
      qed
    qed
    have step: "searchLoop E b w r tm sk so sb sw hb hw (c # cs)
                = searchLoop E b' w' r tm sk so sb sw hb' hw' cs"
      using False x y by (simp add: x_def[symmetric] y_def[symmetric])
    have hb2: "\<forall>l. hb' = Some l \<longrightarrow> (\<forall>g\<in>set l. heldMatch E b' r tm sk so g)"
      using hb' heldMatch_equivalent[OF eb, of E] by simp
    have hw2: "\<forall>l. hw' = Some l \<longrightarrow> (\<forall>g\<in>set l. heldMatch E w' r tm sk False g)"
      using hw' heldMatch_equivalent[OF ew, of E] by simp
    show ?thesis
      unfolding step using Cons.IH[OF wb ww hb2 hw2]
        heldMatch_equivalent[OF eb, of E] heldMatch_equivalent[OF ew, of E] by simp
  qed
qed

end
